theory Spec2Isabelle
  imports Main
begin

section \<open>Python strings\<close>

text \<open>
  A Python \<open>str\<close> is a list of code points. \<open>str\<close> turns a literal of this theory into
  the \<open>str\<close> of the same characters.
\<close>

type_synonym pystr = "nat list"

definition str :: "string \<Rightarrow> pystr" where
  "str s = map of_char s"

declare str_def [simp]

text \<open>
  The character classes of Python 3 (\<open>str.isalpha\<close>, \<open>isupper\<close>, \<open>islower\<close>,
  \<open>istitle\<close> on one character, and \<open>str.lower\<close>) are written out on the code points 0
  to 255 and on the ideographs U+4E00 to U+9FA5, which are letters without case. Everywhere
  else they are a parameter of the model: the record \<open>unicode\<close> holds the classes of the
  other code points and the result of \<open>lower()\<close> on the strings that need them.
  Whitespace (\<open>str.isspace\<close>, which \<open>split()\<close> uses) is written out in full.
\<close>

record unicode =
  u_alpha :: "nat \<Rightarrow> bool"
  u_upper :: "nat \<Rightarrow> bool"
  u_lower :: "nat \<Rightarrow> bool"
  u_title :: "nat \<Rightarrow> bool"
  u_lowered :: "pystr \<Rightarrow> pystr"

definition isspace_c :: "nat \<Rightarrow> bool" where
  "isspace_c n =
     ((9 \<le> n \<and> n \<le> 13) \<or> (28 \<le> n \<and> n \<le> 32) \<or> n = 133 \<or> n = 160 \<or> n = 5760
      \<or> (8192 \<le> n \<and> n \<le> 8202) \<or> n = 8232 \<or> n = 8233 \<or> n = 8239 \<or> n = 8287
      \<or> n = 12288)"

definition ideograph :: "nat \<Rightarrow> bool" where
  "ideograph n = (19968 \<le> n \<and> n \<le> 40869)"

definition isupper_c :: "unicode \<Rightarrow> nat \<Rightarrow> bool" where
  "isupper_c U n =
     (if n < 256 then (65 \<le> n \<and> n \<le> 90) \<or> (192 \<le> n \<and> n \<le> 214) \<or> (216 \<le> n \<and> n \<le> 222)
      else if ideograph n then False
      else u_upper U n)"

definition islower_c :: "unicode \<Rightarrow> nat \<Rightarrow> bool" where
  "islower_c U n =
     (if n < 256 then (97 \<le> n \<and> n \<le> 122) \<or> n = 170 \<or> n = 181 \<or> n = 186
                      \<or> (223 \<le> n \<and> n \<le> 246) \<or> (248 \<le> n \<and> n \<le> 255)
      else if ideograph n then False
      else u_lower U n)"

definition istitle_c :: "unicode \<Rightarrow> nat \<Rightarrow> bool" where
  "istitle_c U n = (if n < 256 then False else if ideograph n then False else u_title U n)"

definition isalpha_c :: "unicode \<Rightarrow> nat \<Rightarrow> bool" where
  "isalpha_c U n =
     (if n < 256 then (65 \<le> n \<and> n \<le> 90) \<or> (97 \<le> n \<and> n \<le> 122) \<or> n = 170 \<or> n = 181
                      \<or> n = 186 \<or> (192 \<le> n \<and> n \<le> 214) \<or> (216 \<le> n \<and> n \<le> 246)
                      \<or> (248 \<le> n \<and> n \<le> 255)
      else if ideograph n then True
      else u_alpha U n)"

text \<open>\<open>lower()\<close> on one character below 256.\<close>

definition lower_c :: "nat \<Rightarrow> nat" where
  "lower_c n =
     (if (65 \<le> n \<and> n \<le> 90) \<or> (192 \<le> n \<and> n \<le> 214) \<or> (216 \<le> n \<and> n \<le> 222) then n + 32
      else n)"

text \<open>\<open>w.isalpha()\<close>: at least one character, and every character a letter.\<close>

definition str_isalpha :: "unicode \<Rightarrow> pystr \<Rightarrow> bool" where
  "str_isalpha U w = (w \<noteq> [] \<and> list_all (isalpha_c U) w)"

text \<open>
  \<open>w.isupper()\<close>: no lower-case and no title-case character, and at least one upper-case
  character; \<open>w.islower()\<close> likewise.
\<close>

definition str_isupper :: "unicode \<Rightarrow> pystr \<Rightarrow> bool" where
  "str_isupper U w =
     (\<not> list_ex (\<lambda>c. islower_c U c \<or> istitle_c U c) w \<and> list_ex (isupper_c U) w)"

definition str_islower :: "unicode \<Rightarrow> pystr \<Rightarrow> bool" where
  "str_islower U w =
     (\<not> list_ex (\<lambda>c. isupper_c U c \<or> istitle_c U c) w \<and> list_ex (islower_c U) w)"

text \<open>
  \<open>w.lower()\<close> changes upper-case and title-case characters only, and those below 256
  one by one. A string with an upper-case or title-case character from 256 on is lowered
  as the parameter says.
\<close>

definition str_lower :: "unicode \<Rightarrow> pystr \<Rightarrow> pystr" where
  "str_lower U w =
     (if list_ex (\<lambda>c. 256 \<le> c \<and> (isupper_c U c \<or> istitle_c U c)) w then u_lowered U w
      else map lower_c w)"

text \<open>
  \<open>s.split()\<close>: the maximal runs of characters that are not whitespace. \<open>cur\<close> is the
  run being read.
\<close>

fun split_from :: "pystr \<Rightarrow> pystr \<Rightarrow> pystr list" where
  "split_from cur [] = (if cur = [] then [] else [cur])"
| "split_from cur (c # cs) =
     (if isspace_c c then (if cur = [] then split_from [] cs else cur # split_from [] cs)
      else split_from (cur @ [c]) cs)"

definition str_split :: "pystr \<Rightarrow> pystr list" where
  "str_split s = split_from [] s"

text \<open>\<open>' '.join(ws)\<close>.\<close>

fun str_join :: "pystr list \<Rightarrow> pystr" where
  "str_join [] = []"
| "str_join [w] = w"
| "str_join (w # ws) = w @ str '' '' @ str_join ws"

text \<open>\<open>s.split(' ')\<close>: the pieces between single spaces; never an empty list.\<close>

fun split_sp_from :: "pystr \<Rightarrow> pystr \<Rightarrow> pystr list" where
  "split_sp_from cur [] = [cur]"
| "split_sp_from cur (c # cs) =
     (if c = of_char (CHR '' '') then cur # split_sp_from [] cs else split_sp_from (cur @ [c]) cs)"

definition str_split_sp :: "pystr \<Rightarrow> pystr list" where
  "str_split_sp s = split_sp_from [] s"

definition startswith :: "pystr \<Rightarrow> pystr \<Rightarrow> bool" where
  "startswith s p = (take (length p) s = p)"

definition endswith :: "pystr \<Rightarrow> pystr \<Rightarrow> bool" where
  "endswith s p = (length p \<le> length s \<and> drop (length s - length p) s = p)"

text \<open>\<open>sub in s\<close>.\<close>

fun str_contains :: "pystr \<Rightarrow> pystr \<Rightarrow> bool" where
  "str_contains sub [] = (sub = [])"
| "str_contains sub (c # cs) = (startswith (c # cs) sub \<or> str_contains sub cs)"

section \<open>Contexts\<close>

definition CONTEXT_SEP :: pystr where
  "CONTEXT_SEP = str ''.''"

text \<open>
  The exceptions of the engine. \<open>ValueError\<close> carries the list \<open>err\<close> that
  \<open>_validate_context\<close> collects (with the separator filled in), from which the
  message is formatted; \<open>InvalidCommand\<close> carries which of its four messages it has.
\<close>

datatype invalid = LettersOnly | UsedOnce | MixedCase | WrongSignature

datatype error = ValueError "pystr list" | InvalidCommand invalid

definition validate_context :: "pystr option \<Rightarrow> error + unit" where
  "validate_context context =
     (case context of
        None \<Rightarrow> Inr ()
      | Some ctx \<Rightarrow>
          (let err = (if ctx = [] then [str ''be empty''] else [])
                   @ (if startswith ctx CONTEXT_SEP then [str ''start with '' @ CONTEXT_SEP] else [])
                   @ (if endswith ctx CONTEXT_SEP then [str ''end with '' @ CONTEXT_SEP] else [])
                   @ (if str_contains (CONTEXT_SEP @ CONTEXT_SEP) ctx
                      then [str ''contain '' @ CONTEXT_SEP @ CONTEXT_SEP] else [])
           in if err \<noteq> [] then Inl (ValueError err) else Inr ()))"

definition match_context :: "pystr option \<Rightarrow> pystr option \<Rightarrow> bool" where
  "match_context context active_context =
     (case context of
        None \<Rightarrow> True
      | Some c \<Rightarrow>
          (case active_context of
             None \<Rightarrow> False
           | Some a \<Rightarrow>
               (let clen = length c
                in startswith a c
                   \<and> (take (length CONTEXT_SEP) (drop clen a) = []
                      \<or> take (length CONTEXT_SEP) (drop clen a) = CONTEXT_SEP))))"

section \<open>Patterns\<close>

text \<open>
  A word of a compiled command is a \<open>str\<close> or a \<open>Placeholder\<close> object holding its name.
\<close>

datatype tok = Lit pystr | Placeholder pystr

text \<open>
  The loop of \<open>Pattern.__init__\<close> over the words of the command, with its three
  accumulators \<open>match\<close>, \<open>argnames\<close> and \<open>self.placeholders\<close>.
\<close>

fun compile_words ::
  "unicode \<Rightarrow> pystr list \<Rightarrow> tok list \<Rightarrow> pystr list \<Rightarrow> nat \<Rightarrow> error + (tok list \<times> pystr list \<times> nat)"
where
  "compile_words U [] match argnames n = Inr (match, argnames, n)"
| "compile_words U (w # ws) match argnames n =
     (if \<not> str_isalpha U w then Inl (InvalidCommand LettersOnly)
      else if str_isupper U w then
        (let arg = str_lower U w
         in if arg \<in> set argnames then Inl (InvalidCommand UsedOnce)
            else compile_words U ws (match @ [Placeholder arg]) (argnames @ [arg]) (n + 1))
      else if str_islower U w then compile_words U ws (match @ [Lit w]) argnames n
      else Inl (InvalidCommand MixedCase))"

text \<open>The second loop: the words before the first \<open>Placeholder\<close>.\<close>

fun literal_prefix :: "tok list \<Rightarrow> pystr list" where
  "literal_prefix [] = []"
| "literal_prefix (Placeholder a # ws) = []"
| "literal_prefix (Lit w # ws) = w # literal_prefix ws"

record Pattern =
  orig_pattern :: pystr
  pattern_context :: "pystr option"
  placeholders :: nat
  argnames :: "pystr list"
  prefix :: "pystr list"
  pattern :: "tok list"
  fixed :: int

definition Pattern_init :: "unicode \<Rightarrow> pystr \<Rightarrow> pystr option \<Rightarrow> error + Pattern" where
  "Pattern_init U pat context =
     (case validate_context context of
        Inl e \<Rightarrow> Inl e
      | Inr u \<Rightarrow>
          (case compile_words U (str_split pat) [] [] 0 of
             Inl e \<Rightarrow> Inl e
           | Inr (match, names, n) \<Rightarrow>
               (let pre = literal_prefix match;
                    rest = drop (length pre) match
                in Inr \<lparr>orig_pattern = pat, pattern_context = context, placeholders = n,
                        argnames = names, prefix = pre, pattern = rest,
                        fixed = int (length rest) - int n\<rparr>)))"

text \<open>
  \<open>Pattern.word_combinations\<close>, the generator read as the list of what it yields, and
  its \<open>while take > 0\<close> loop, whose state is \<open>tk\<close> (the variable \<open>take\<close>, with \<open>have\<close> and
  \<open>other_groups = placeholders - 1\<close> fixed). \<open>placeholders\<close> is a count. With no
  placeholder and \<open>have > 0\<close> the Python recursion descends through negative counts and
  never finishes; \<open>match\<close> on a compiled pattern never calls it so (lemma
  \<open>compiled_pattern_placeholders\<close> below), and the model yields nothing there.
\<close>

function word_combinations :: "int \<Rightarrow> nat \<Rightarrow> int list list"
  and combinations_loop :: "int \<Rightarrow> nat \<Rightarrow> int \<Rightarrow> int list list"
where
  "word_combinations have n =
     (if have < int n then []
      else if have = int n then [replicate n 1]
      else if n = 1 then [[have]]
      else if n = 0 then []
      else combinations_loop have (n - 1) (have - int (n - 1)))"
| "combinations_loop have other_groups tk =
     (if tk > 0 then
        (if have \<ge> int other_groups
         then map (\<lambda>buckets. tk # buckets) (word_combinations (have - tk) other_groups)
         else [])
        @ combinations_loop have other_groups (tk - 1)
      else [])"
  by pat_completeness auto
termination
  by (relation "measures
        [\<lambda>x. case x of Inl (h, n) \<Rightarrow> 2 * n | Inr (h, g, t) \<Rightarrow> 2 * g + 1,
         \<lambda>x. case x of Inl (h, n) \<Rightarrow> 0 | Inr (h, g, t) \<Rightarrow> nat t]") auto

declare word_combinations.simps [simp del] combinations_loop.simps [simp del]

definition ctx_order :: "Pattern \<Rightarrow> nat" where
  "ctx_order p =
     (case pattern_context p of
        None \<Rightarrow> 0
      | Some c \<Rightarrow> if c = [] then 0 else count_list c (hd CONTEXT_SEP) + 1)"

definition is_active :: "Pattern \<Rightarrow> pystr option \<Rightarrow> bool" where
  "is_active p current_context = match_context (pattern_context p) current_context"

text \<open>
  \<open>for _ in range(count): ws.append(next(inp))\<close>: the words read and the rest of the
  input, or \<open>None\<close> when \<open>next\<close> raises \<open>StopIteration\<close>.
\<close>

fun next_words :: "nat \<Rightarrow> pystr list \<Rightarrow> (pystr list \<times> pystr list) option" where
  "next_words 0 inp = Some ([], inp)"
| "next_words (Suc k) [] = None"
| "next_words (Suc k) (w # inp) =
     (case next_words k inp of None \<Rightarrow> None | Some (ws, inp') \<Rightarrow> Some (w # ws, inp'))"

text \<open>
  One pass of the inner loop of \<open>match\<close> over \<open>self.pattern\<close> for one combination:
  it runs to its end (\<open>Completed\<close>, the \<open>else\<close> of the \<open>for\<close>), leaves by \<open>break\<close>
  at a literal that differs, or is left by \<open>StopIteration\<close>.
\<close>

datatype walk_result = Completed "pystr \<rightharpoonup> pystr list" | Break | StopIteration

fun walk :: "tok list \<Rightarrow> int list \<Rightarrow> pystr list \<Rightarrow> (pystr \<rightharpoonup> pystr list) \<Rightarrow> walk_result" where
  "walk [] tk inp matches = Completed matches"
| "walk (Placeholder name # cs) tk inp matches =
     (case tk of
        [] \<Rightarrow> StopIteration
      | count # tk' \<Rightarrow>
          (case next_words (nat count) inp of
             None \<Rightarrow> StopIteration
           | Some (ws, inp') \<Rightarrow> walk cs tk' inp' (matches(name \<mapsto> ws))))"
| "walk (Lit cword # cs) tk inp matches =
     (case inp of
        [] \<Rightarrow> StopIteration
      | word # inp' \<Rightarrow> if cword \<noteq> word then Break else walk cs tk inp' matches)"

text \<open>The outer loop of \<open>match\<close> over the combinations.\<close>

fun try_combos :: "tok list \<Rightarrow> pystr list \<Rightarrow> int list list \<Rightarrow> (pystr \<rightharpoonup> pystr) option" where
  "try_combos pat inp [] = None"
| "try_combos pat inp (combo # combos) =
     (case walk pat combo inp Map.empty of
        Completed matches \<Rightarrow> Some (map_option str_join \<circ> matches)
      | Break \<Rightarrow> try_combos pat inp combos
      | StopIteration \<Rightarrow> try_combos pat inp combos)"

definition match :: "Pattern \<Rightarrow> pystr list \<Rightarrow> (pystr \<rightharpoonup> pystr) option" where
  "match p input_words =
     (if length input_words < length (argnames p) then None
      else if take (length (prefix p)) input_words \<noteq> prefix p then None
      else
        (let inp = drop (length (prefix p)) input_words
         in if inp = [] \<and> pattern p = [] then Some Map.empty
            else if (inp \<noteq> []) \<noteq> (pattern p \<noteq> []) then None
            else
              (let have = int (length inp) - fixed p
               in try_combos (pattern p) inp (word_combinations have (placeholders p)))))"

section \<open>Registry and dispatch\<close>

text \<open>
  Python values as far as the engine looks at them: \<open>None\<close>, a \<open>str\<close>, or any other
  object. A handler call returns a value or raises; the raised object is an instance of
  \<open>Exception\<close>, given by its \<open>str(e)\<close>, or one of the built-in exceptions that are not
  (\<open>sys.exit\<close> raises \<open>SystemExit\<close>).
\<close>

datatype 'v pyval = PNone | PStr pystr | PObj 'v

datatype exc = Exception pystr | SystemExit | KeyboardInterrupt | GeneratorExit

datatype 'v outcome = Returns "'v pyval" | Raises exc

text \<open>
  The module globals a handler may read and assign: the active context and the game's own
  variables (\<open>world\<close>). Handlers do not touch the list \<open>commands\<close>, which is threaded
  separately.
\<close>

record 'w globals =
  current_context :: "pystr option"
  world :: 'w

text \<open>
  A function object: the parameter names of \<open>inspect.signature(func)\<close> and what a call
  \<open>func(**args)\<close> does.
\<close>

datatype ('v, 'w) func =
  Func (parameters: "pystr list")
       (body: "(pystr \<rightharpoonup> 'v pyval) \<Rightarrow> 'w globals \<Rightarrow> 'v outcome \<times> 'w globals")

type_synonym ('v, 'w) command = "Pattern \<times> ('v, 'w) func \<times> (pystr \<rightharpoonup> 'v pyval)"

definition set_context :: "pystr option \<Rightarrow> 'w globals \<Rightarrow> (error + unit) \<times> 'w globals" where
  "set_context new_context g =
     (case validate_context new_context of
        Inl e \<Rightarrow> (Inl e, g)
      | Inr u \<Rightarrow> (Inr (), g\<lparr>current_context := new_context\<rparr>))"

definition get_context :: "'w globals \<Rightarrow> pystr option" where
  "get_context g = current_context g"

definition register ::
  "unicode \<Rightarrow> pystr \<Rightarrow> ('v, 'w) func \<Rightarrow> pystr option \<Rightarrow> (pystr \<rightharpoonup> 'v pyval) \<Rightarrow> ('v, 'w) command list
     \<Rightarrow> error + ('v, 'w) command list"
where
  "register U command f context kwargs commands =
     (case Pattern_init U command context of
        Inl e \<Rightarrow> Inl e
      | Inr p \<Rightarrow>
          (let func_argnames = set (parameters f);
               when_argnames = set (argnames p) \<union> dom kwargs
           in if func_argnames \<noteq> when_argnames then Inl (InvalidCommand WrongSignature)
              else Inr (commands @ [(p, f, kwargs)])))"

text \<open>
  The active commands, in the order of \<open>list.sort(key=ctx_order, reverse=True)\<close>: by
  decreasing key, entries of equal key in their original order. \<open>sort_key\<close> is a stable
  insertion sort by increasing key, so the key is negated.
\<close>

definition available_commands ::
  "('v, 'w) command list \<Rightarrow> pystr option \<Rightarrow> ('v, 'w) command list"
where
  "available_commands commands cur =
     sort_key (\<lambda>c. - int (ctx_order (fst c))) (filter (\<lambda>c. is_active (fst c) cur) commands)"

text \<open>
  The \<open>try\<close> block of \<open>dispatch_command\<close> around the call of the handler. \<open>Inl\<close> is
  an exception that leaves \<open>dispatch_command\<close>; \<open>Inr\<close> is the value it returns.
  \<open>except Exception\<close> catches the instances of \<open>Exception\<close> only.
\<close>

definition invoke ::
  "('v, 'w) func \<Rightarrow> (pystr \<rightharpoonup> 'v pyval) \<Rightarrow> 'w globals \<Rightarrow> (exc + 'v pyval) \<times> 'w globals"
where
  "invoke f args g =
     (case body f args g of
        (Returns result, g') \<Rightarrow> (Inr (if result \<noteq> PNone then result else PStr (str ''OK'')), g')
      | (Raises (Exception msg), g') \<Rightarrow> (Inr (PStr ((str ''Error: '') @ msg)), g')
      | (Raises e, g') \<Rightarrow> (Inl e, g'))"

text \<open>The loop of \<open>dispatch_command\<close> over the available commands.\<close>

fun try_commands ::
  "pystr list \<Rightarrow> ('v, 'w) command list \<Rightarrow> 'w globals \<Rightarrow> (exc + 'v pyval) \<times> 'w globals"
where
  "try_commands ws [] g = (Inr PNone, g)"
| "try_commands ws ((p, f, kwargs) # rest) g =
     (case match p ws of
        None \<Rightarrow> try_commands ws rest g
      | Some matches \<Rightarrow> invoke f (kwargs ++ (map_option PStr \<circ> matches)) g)"

definition dispatch_command ::
  "unicode \<Rightarrow> ('v, 'w) command list \<Rightarrow> pystr \<Rightarrow> 'w globals \<Rightarrow> (exc + 'v pyval) \<times> 'w globals"
where
  "dispatch_command U commands cmd g =
     (let ws = str_split (str_lower U cmd)
      in try_commands ws (available_commands commands (current_context g)) g)"

text \<open>The built-in entry of \<open>commands\<close>: \<open>(Pattern('quit'), sys.exit, {})\<close>.\<close>

definition sys_exit :: "('v, 'w) func" where
  "sys_exit = Func [str ''status''] (\<lambda>args g. (Raises SystemExit, g))"

definition quit_pattern :: Pattern where
  "quit_pattern =
     \<lparr>orig_pattern = str ''quit'', pattern_context = None, placeholders = 0, argnames = [],
      prefix = [str ''quit''], pattern = [], fixed = 0\<rparr>"

definition builtin_commands :: "('v, 'w) command list" where
  "builtin_commands = [(quit_pattern, sys_exit, Map.empty)]"

section \<open>Notions used to state the properties\<close>

text \<open>
  Tokens: which are placeholders and how they are called; the token that
  \<open>Pattern.__init__\<close> makes of a word it accepts; a word with letters of both cases; the
  shape of every pattern object built by \<open>Pattern.__init__\<close>; the order of the
  combinations; replaying a pattern with captured strings.
\<close>

fun is_placeholder :: "tok \<Rightarrow> bool" where
  "is_placeholder (Placeholder a) = True"
| "is_placeholder (Lit w) = False"

fun tok_name :: "tok \<Rightarrow> pystr" where
  "tok_name (Placeholder a) = a"
| "tok_name (Lit w) = w"

definition word_tok :: "unicode \<Rightarrow> pystr \<Rightarrow> tok" where
  "word_tok U w = (if str_isupper U w then Placeholder (str_lower U w) else Lit w)"

definition mixed_case :: "unicode \<Rightarrow> pystr \<Rightarrow> bool" where
  "mixed_case U w = (list_ex (isupper_c U) w \<and> list_ex (islower_c U) w)"

definition neither_case :: "unicode \<Rightarrow> pystr \<Rightarrow> bool" where
  "neither_case U w = (\<not> str_isupper U w \<and> \<not> str_islower U w)"

definition wf_pattern :: "unicode \<Rightarrow> Pattern \<Rightarrow> bool" where
  "wf_pattern U p =
     (placeholders p = length (filter is_placeholder (pattern p))
      \<and> argnames p = map tok_name (filter is_placeholder (pattern p))
      \<and> distinct (argnames p)
      \<and> fixed p = int (length (pattern p)) - int (placeholders p)
      \<and> (pattern p = [] \<or> is_placeholder (hd (pattern p)))
      \<and> list_all (str_islower U) (prefix p))"

fun lex_greater :: "int list \<Rightarrow> int list \<Rightarrow> bool" where
  "lex_greater (x # xs) (y # ys) = (x > y \<or> (x = y \<and> lex_greater xs ys))"
| "lex_greater xs ys = False"

fun completed :: "walk_result \<Rightarrow> (pystr \<rightharpoonup> pystr list) option" where
  "completed (Completed m) = Some m"
| "completed Break = None"
| "completed StopIteration = None"

fun expand :: "(pystr \<rightharpoonup> pystr list) \<Rightarrow> tok \<Rightarrow> pystr list" where
  "expand m (Lit w) = [w]"
| "expand m (Placeholder a) = (case m a of None \<Rightarrow> [] | Some ws \<Rightarrow> ws)"

fun replay_tok :: "(pystr \<rightharpoonup> pystr) \<Rightarrow> tok \<Rightarrow> pystr list" where
  "replay_tok m (Lit w) = [w]"
| "replay_tok m (Placeholder a) = (case m a of None \<Rightarrow> [] | Some s \<Rightarrow> str_split_sp s)"

definition replay :: "Pattern \<Rightarrow> (pystr \<rightharpoonup> pystr) \<Rightarrow> pystr list" where
  "replay p m = prefix p @ concat (map (replay_tok m) (pattern p))"

section \<open>Example objects\<close>

text \<open>
  The patterns that \<open>Pattern('take ITEM')\<close>, \<open>Pattern('use ITEM on FIXTURE')\<close> and
  \<open>Pattern('look', context)\<close> build, two handlers (one returns a string, one raises an
  \<open>Exception\<close>) and globals with a given active context.
\<close>

text \<open>
  Tables that say nothing of the code points they are asked about. The examples below
  use characters below 256 and ideographs only, whose classes do not depend on the
  tables, so any tables would do.
\<close>

definition plain :: unicode where
  "plain = \<lparr>u_alpha = (\<lambda>n. False), u_upper = (\<lambda>n. False), u_lower = (\<lambda>n. False),
            u_title = (\<lambda>n. False), u_lowered = (\<lambda>w. w)\<rparr>"

definition take_item_pattern :: Pattern where
  "take_item_pattern =
     \<lparr>orig_pattern = str ''take ITEM'', pattern_context = None, placeholders = 1,
      argnames = [str ''item''], prefix = [str ''take''], pattern = [Placeholder (str ''item'')], fixed = 0\<rparr>"

definition use_pattern :: Pattern where
  "use_pattern =
     \<lparr>orig_pattern = str ''use ITEM on FIXTURE'', pattern_context = None, placeholders = 2,
      argnames = [str ''item'', str ''fixture''], prefix = [str ''use''],
      pattern = [Placeholder (str ''item''), Lit (str ''on''), Placeholder (str ''fixture'')], fixed = 1\<rparr>"

definition look_pattern :: "pystr option \<Rightarrow> Pattern" where
  "look_pattern c =
     \<lparr>orig_pattern = str ''look'', pattern_context = c, placeholders = 0, argnames = [],
      prefix = [str ''look''], pattern = [], fixed = 0\<rparr>"

definition say_handler :: "pystr \<Rightarrow> (unit, unit) func" where
  "say_handler s = Func [] (\<lambda>args g. (Returns (PStr s), g))"

definition faulty_handler :: "pystr \<Rightarrow> (unit, unit) func" where
  "faulty_handler msg = Func [] (\<lambda>args g. (Raises (Exception msg), g))"

definition in_context :: "pystr option \<Rightarrow> unit globals" where
  "in_context c = \<lparr>current_context = c, world = ()\<rparr>"

section \<open>Evaluation rules\<close>

lemmas str_eval = str_def str_split_def isspace_c_def ideograph_def str_isalpha_def
  isalpha_c_def str_isupper_def str_islower_def isupper_c_def islower_c_def istitle_c_def
  str_lower_def lower_c_def

lemmas init_eval = Pattern_init_def validate_context_def Let_def str_eval

lemmas wc_eval = word_combinations.simps combinations_loop.simps

section \<open>Contexts: what is within what\<close>

lemma within_iff:
  "(startswith a c \<and> (take (length CONTEXT_SEP) (drop (length c) a) = []
      \<or> take (length CONTEXT_SEP) (drop (length c) a) = CONTEXT_SEP))
   = (a = c \<or> startswith a (c @ CONTEXT_SEP))"
proof -
  let ?n = "length c"
  have split: "take (?n + 1) a = take ?n a @ take 1 (drop ?n a)"
    using take_add [of ?n 1 a] by simp
  show ?thesis
  proof
    assume l: "startswith a c \<and> (take (length CONTEXT_SEP) (drop ?n a) = []
      \<or> take (length CONTEXT_SEP) (drop ?n a) = CONTEXT_SEP)"
    then have pre: "take ?n a = c" by (simp add: startswith_def)
    from l consider "drop ?n a = []" | "take 1 (drop ?n a) = CONTEXT_SEP"
      by (auto simp: CONTEXT_SEP_def str_def)
    then show "a = c \<or> startswith a (c @ CONTEXT_SEP)"
    proof cases
      case 1
      have "a = take ?n a @ drop ?n a" by simp
      with 1 pre show ?thesis by simp
    next
      case 2
      with split pre show ?thesis by (simp add: startswith_def CONTEXT_SEP_def str_def)
    qed
  next
    assume "a = c \<or> startswith a (c @ CONTEXT_SEP)"
    then show "startswith a c \<and> (take (length CONTEXT_SEP) (drop ?n a) = []
      \<or> take (length CONTEXT_SEP) (drop ?n a) = CONTEXT_SEP)"
    proof
      assume "a = c" then show ?thesis by (simp add: startswith_def)
    next
      assume "startswith a (c @ CONTEXT_SEP)"
      then have t: "take (?n + 1) a = c @ CONTEXT_SEP"
        by (simp add: startswith_def CONTEXT_SEP_def str_def)
      have "take ?n a = take ?n (take (?n + 1) a)" by simp
      with t have p: "take ?n a = c" by simp
      have "take 1 (drop ?n a) = drop ?n (take (?n + 1) a)" by (simp add: drop_take)
      with t have "take 1 (drop ?n a) = CONTEXT_SEP" by simp
      with p show ?thesis by (simp add: startswith_def CONTEXT_SEP_def str_def)
    qed
  qed
qed

lemma match_context_Some:
  "match_context (Some c) (Some a) = (a = c \<or> startswith a (c @ CONTEXT_SEP))"
  by (simp only: match_context_def option.case Let_def within_iff)

text \<open>
  Claim C2. \<open>_match_context(context, active_context)\<close> is true exactly when both are
  \<open>None\<close>, or \<open>context\<close> is \<open>None\<close>, or \<open>active_context\<close> is a string that equals
  \<open>context\<close> or starts with \<open>context\<close> followed by the separator. Every context is within
  itself; \<open>x.y\<close> is within the active \<open>x.y.z\<close>; \<open>x.y\<close> is not within \<open>x\<close>, and \<open>y\<close> is
  not within \<open>x.y\<close>.
\<close>

theorem match_context_iff:
  "match_context ctx active =
     ((ctx = None \<and> active = None) \<or> ctx = None
      \<or> (\<exists>c a. ctx = Some c \<and> active = Some a \<and> (a = c \<or> startswith a (c @ CONTEXT_SEP))))
   \<and> match_context a a
   \<and> match_context (Some (str ''x.y'')) (Some (str ''x.y.z''))
   \<and> match_context (Some (str ''x.y'')) (Some (str ''x'')) = False
   \<and> match_context (Some (str ''y'')) (Some (str ''x.y'')) = False"
proof -
  have iff: "match_context ctx active =
     ((ctx = None \<and> active = None) \<or> ctx = None
      \<or> (\<exists>c a. ctx = Some c \<and> active = Some a \<and> (a = c \<or> startswith a (c @ CONTEXT_SEP))))"
    for ctx active
  proof (cases ctx)
    case None
    then show ?thesis by (simp add: match_context_def)
  next
    case (Some c)
    show ?thesis
    proof (cases active)
      case None
      with Some show ?thesis by (simp add: match_context_def)
    next
      case (Some a)
      note match_context_Some [of c a]
      with Some \<open>ctx = Some c\<close> show ?thesis by simp
    qed
  qed
  have refl: "match_context a a"
    by (cases a) (simp_all add: iff)
  have e1: "match_context (Some (str ''x.y'')) (Some (str ''x.y.z''))"
    by (simp add: match_context_def startswith_def CONTEXT_SEP_def str_def)
  have e2: "match_context (Some (str ''x.y'')) (Some (str ''x'')) = False"
    by (simp add: match_context_def startswith_def CONTEXT_SEP_def str_def)
  have e3: "match_context (Some (str ''y'')) (Some (str ''x.y'')) = False"
    by (simp add: match_context_def startswith_def CONTEXT_SEP_def str_def)
  from iff refl e1 e2 e3 show ?thesis by blast
qed

section \<open>Setting the context\<close>

text \<open>
  Claim C7. \<open>set_context(None)\<close> always succeeds and clears the context. For a string,
  \<open>set_context\<close> raises \<open>ValueError\<close> exactly when the string is empty, starts with the
  separator, ends with it or contains it twice in a row; the error lists each violated
  rule and the active context stays as it was. Otherwise the string becomes the active
  context. The empty string, \<open>.a\<close>, \<open>a.\<close> and \<open>a..b\<close> are all refused.
\<close>

theorem set_context_validates:
  "set_context None g = (Inr (), g\<lparr>current_context := None\<rparr>)
   \<and> set_context (Some s) g =
       (if s = [] \<or> startswith s CONTEXT_SEP \<or> endswith s CONTEXT_SEP
           \<or> str_contains (CONTEXT_SEP @ CONTEXT_SEP) s
        then (Inl (ValueError
                ((if s = [] then [str ''be empty''] else [])
                 @ (if startswith s (str ''.'') then [str ''start with .''] else [])
                 @ (if endswith s (str ''.'') then [str ''end with .''] else [])
                 @ (if str_contains (str ''..'') s then [str ''contain ..''] else []))), g)
        else (Inr (), g\<lparr>current_context := Some s\<rparr>))
   \<and> set_context (Some []) g = (Inl (ValueError [str ''be empty'']), g)
   \<and> set_context (Some (str ''.a'')) g = (Inl (ValueError [str ''start with .'']), g)
   \<and> set_context (Some (str ''a.'')) g = (Inl (ValueError [str ''end with .'']), g)
   \<and> set_context (Some (str ''a..b'')) g = (Inl (ValueError [str ''contain ..'']), g)"
proof -
  have general: "set_context (Some s) g =
       (if s = [] \<or> startswith s CONTEXT_SEP \<or> endswith s CONTEXT_SEP
           \<or> str_contains (CONTEXT_SEP @ CONTEXT_SEP) s
        then (Inl (ValueError
                ((if s = [] then [str ''be empty''] else [])
                 @ (if startswith s (str ''.'') then [str ''start with .''] else [])
                 @ (if endswith s (str ''.'') then [str ''end with .''] else [])
                 @ (if str_contains (str ''..'') s then [str ''contain ..''] else []))), g)
        else (Inr (), g\<lparr>current_context := Some s\<rparr>))"
    by (auto simp: set_context_def validate_context_def CONTEXT_SEP_def str_def Let_def)
  have none: "set_context None g = (Inr (), g\<lparr>current_context := None\<rparr>)"
    by (simp add: set_context_def validate_context_def)
  have e1: "set_context (Some []) g = (Inl (ValueError [str ''be empty'']), g)"
    by (simp add: set_context_def validate_context_def CONTEXT_SEP_def str_def startswith_def
        endswith_def)
  have e2: "set_context (Some (str ''.a'')) g = (Inl (ValueError [str ''start with .'']), g)"
    by (simp add: set_context_def validate_context_def CONTEXT_SEP_def str_def startswith_def
        endswith_def)
  have e3: "set_context (Some (str ''a.'')) g = (Inl (ValueError [str ''end with .'']), g)"
    by (simp add: set_context_def validate_context_def CONTEXT_SEP_def str_def startswith_def
        endswith_def)
  have e4: "set_context (Some (str ''a..b'')) g = (Inl (ValueError [str ''contain ..'']), g)"
    by (simp add: set_context_def validate_context_def CONTEXT_SEP_def str_def startswith_def
        endswith_def)
  from none general e1 e2 e3 e4 show ?thesis by blast
qed

section \<open>Compiling a pattern\<close>

text \<open>The words that \<open>split()\<close> returns are not empty and hold no whitespace.\<close>

lemma split_from_nonempty: "w \<in> set (split_from cur s) \<Longrightarrow> w \<noteq> []"
  by (induction s arbitrary: cur) (auto split: if_splits)

lemma split_from_no_space:
  "w \<in> set (split_from cur s) \<Longrightarrow> list_all (\<lambda>c. \<not> isspace_c c) cur
     \<Longrightarrow> list_all (\<lambda>c. \<not> isspace_c c) w"
  by (induction s arbitrary: cur) (auto split: if_splits)

lemma str_split_words:
  assumes "w \<in> set (str_split s)"
  shows "w \<noteq> []" and "of_char (CHR '' '') \<notin> set w"
proof -
  from assms show "w \<noteq> []" unfolding str_split_def by (rule split_from_nonempty)
  from assms have "list_all (\<lambda>c. \<not> isspace_c c) w"
    unfolding str_split_def by (rule split_from_no_space) simp
  moreover have "isspace_c (of_char (CHR '' ''))" by (simp add: isspace_c_def)
  ultimately show "of_char (CHR '' '') \<notin> set w" by (auto simp: list_all_iff)
qed

lemma not_isalpha_iff:
  "w \<noteq> [] \<Longrightarrow> (\<not> str_isalpha U w) = list_ex (\<lambda>c. \<not> isalpha_c U c) w"
  by (simp add: str_isalpha_def list_all_iff list_ex_iff)

lemma split_not_isalpha:
  "list_ex (\<lambda>w. \<not> str_isalpha U w) (str_split t)
     = list_ex (\<lambda>w. list_ex (\<lambda>c. \<not> isalpha_c U c) w) (str_split t)"
  unfolding list_ex_iff [of _ "str_split t"]
  using str_split_words(1) not_isalpha_iff by blast

text \<open>
  A word that is neither upper-case nor lower-case mixes the cases, or has a title-case
  letter, or has no cased letter at all.
\<close>

lemma neither_case_iff:
  "neither_case U w =
     (mixed_case U w \<or> list_ex (istitle_c U) w
      \<or> (\<not> list_ex (isupper_c U) w \<and> \<not> list_ex (islower_c U) w))"
  unfolding neither_case_def str_isupper_def str_islower_def mixed_case_def list_ex_iff
  by blast

text \<open>What the first loop has done when it ends without an error.\<close>

lemma compile_words_ok:
  "compile_words U ws m a n = Inr (m', a', n') \<Longrightarrow>
     m' = m @ map (word_tok U) ws
     \<and> a' = a @ map (str_lower U) (filter (str_isupper U) ws)
     \<and> n' = n + length (filter (str_isupper U) ws)
     \<and> distinct (map (str_lower U) (filter (str_isupper U) ws))
     \<and> set a \<inter> set (map (str_lower U) (filter (str_isupper U) ws)) = {}
     \<and> list_all (\<lambda>w. str_isalpha U w \<and> (str_isupper U w \<or> str_islower U w)) ws"
proof (induction ws arbitrary: m a n)
  case Nil
  then show ?case by simp
next
  case (Cons w ws)
  show ?case
  proof (cases "str_isupper U w")
    case True
    with Cons.prems have alpha: "str_isalpha U w" and fresh: "str_lower U w \<notin> set a"
      and rest: "compile_words U ws (m @ [Placeholder (str_lower U w)]) (a @ [str_lower U w]) (n + 1)
                 = Inr (m', a', n')"
      by (auto simp: Let_def split: if_splits)
    from Cons.IH [OF rest] True alpha fresh show ?thesis
      by (auto simp: word_tok_def)
  next
    case False
    with Cons.prems have alpha: "str_isalpha U w" and low: "str_islower U w"
      and rest: "compile_words U ws (m @ [Lit w]) a n = Inr (m', a', n')"
      by (auto simp: Let_def split: if_splits)
    from Cons.IH [OF rest] False alpha low show ?thesis
      by (auto simp: word_tok_def)
  qed
qed

text \<open>When the first loop raises.\<close>

lemma compile_words_fails:
  "(\<exists>k. compile_words U ws m a n = Inl (InvalidCommand k)) =
     (list_ex (\<lambda>w. \<not> str_isalpha U w) ws \<or> list_ex (neither_case U) ws
      \<or> \<not> distinct (map (str_lower U) (filter (str_isupper U) ws))
      \<or> set a \<inter> set (map (str_lower U) (filter (str_isupper U) ws)) \<noteq> {})"
proof (induction ws arbitrary: m a n)
  case Nil
  then show ?case by simp
next
  case (Cons w ws)
  show ?case
  proof (cases "str_isalpha U w")
    case False
    then show ?thesis by simp
  next
    case alpha: True
    show ?thesis
    proof (cases "str_isupper U w")
      case up: True
      then have nn: "\<not> neither_case U w" by (simp add: neither_case_def)
      show ?thesis
      proof (cases "str_lower U w \<in> set a")
        case True
        with alpha up show ?thesis by simp
      next
        case False
        with alpha up nn show ?thesis
          by (auto simp: Cons.IH Let_def)
      qed
    next
      case nup: False
      show ?thesis
      proof (cases "str_islower U w")
        case True
        then have nn: "\<not> neither_case U w" by (simp add: neither_case_def)
        with alpha nup True show ?thesis by (simp add: Cons.IH)
      next
        case False
        with nup have "neither_case U w" by (simp add: neither_case_def)
        with alpha nup False show ?thesis by simp
      qed
    qed
  qed
qed

lemma literal_prefix_decomp:
  "map Lit (literal_prefix m) @ drop (length (literal_prefix m)) m = m"
  by (induction m rule: literal_prefix.induct) simp_all

lemma literal_prefix_rest:
  "drop (length (literal_prefix m)) m = []
   \<or> is_placeholder (hd (drop (length (literal_prefix m)) m))"
  by (induction m rule: literal_prefix.induct) simp_all

lemma literal_prefix_filter:
  "filter is_placeholder (drop (length (literal_prefix m)) m) = filter is_placeholder m"
  by (induction m rule: literal_prefix.induct) simp_all

lemma literal_prefix_subset: "w \<in> set (literal_prefix m) \<Longrightarrow> Lit w \<in> set m"
  by (induction m rule: literal_prefix.induct) auto

lemma filter_placeholder_word_tok:
  "filter is_placeholder (map (word_tok U) ws) = map (word_tok U) (filter (str_isupper U) ws)"
  by (induction ws) (simp_all add: word_tok_def)

lemma tok_name_word_tok:
  "map tok_name (map (word_tok U) (filter (str_isupper U) ws)) = map (str_lower U) (filter (str_isupper U) ws)"
  by (induction ws) (simp_all add: word_tok_def)

text \<open>Every pattern object that \<open>Pattern.__init__\<close> returns.\<close>

lemma Pattern_init_Inr:
  assumes "Pattern_init U t c = Inr p"
  shows "validate_context c = Inr ()"
    and "pattern_context p = c"
    and "orig_pattern p = t"
    and "map Lit (prefix p) @ pattern p = map (word_tok U) (str_split t)"
    and "wf_pattern U p"
proof -
  from assms show v: "validate_context c = Inr ()"
    by (simp add: Pattern_init_def split: sum.splits)
  from assms v obtain m a n where cw: "compile_words U (str_split t) [] [] 0 = Inr (m, a, n)"
    and p: "p = \<lparr>orig_pattern = t, pattern_context = c, placeholders = n, argnames = a,
                 prefix = literal_prefix m, pattern = drop (length (literal_prefix m)) m,
                 fixed = int (length (drop (length (literal_prefix m)) m)) - int n\<rparr>"
    by (auto simp: Pattern_init_def Let_def split: sum.splits)
  from p show "pattern_context p = c" and "orig_pattern p = t" by simp_all
  from compile_words_ok [OF cw] have m: "m = map (word_tok U) (str_split t)"
    and a: "a = map (str_lower U) (filter (str_isupper U) (str_split t))"
    and n: "n = length (filter (str_isupper U) (str_split t))"
    and d: "distinct a"
    and ok: "list_all (\<lambda>w. str_isalpha U w \<and> (str_isupper U w \<or> str_islower U w)) (str_split t)"
    by simp_all
  from p m show "map Lit (prefix p) @ pattern p = map (word_tok U) (str_split t)"
    using literal_prefix_decomp [of m] by simp
  have f: "filter is_placeholder (pattern p) = map (word_tok U) (filter (str_isupper U) (str_split t))"
    using p m literal_prefix_filter [of m] filter_placeholder_word_tok by simp
  have low: "list_all (str_islower U) (prefix p)"
    unfolding list_all_iff
  proof
    fix w assume "w \<in> set (prefix p)"
    with p have "Lit w \<in> set m" by (simp add: literal_prefix_subset)
    with m obtain v where v: "v \<in> set (str_split t)" and wv: "word_tok U v = Lit w" by auto
    then have "\<not> str_isupper U v" and "v = w" by (auto simp: word_tok_def split: if_splits)
    with ok v show "str_islower U w" by (auto simp: list_all_iff)
  qed
  show "wf_pattern U p"
    unfolding wf_pattern_def
    using f n a d low p literal_prefix_rest [of m] tok_name_word_tok [of U "str_split t"]
    by simp
qed

lemma compiled_pattern_placeholders:
  assumes "Pattern_init U t c = Inr p" and "pattern p \<noteq> []"
  shows "1 \<le> placeholders p"
proof -
  note wf = Pattern_init_Inr(5) [OF assms(1)]
  from assms(2) obtain x xs where pat: "pattern p = x # xs" by (cases "pattern p") auto
  with wf have "is_placeholder x" by (simp add: wf_pattern_def)
  with pat wf show ?thesis by (simp add: wf_pattern_def)
qed

lemma Pattern_init_fails:
  "(\<exists>k. Pattern_init U t c = Inl (InvalidCommand k)) =
     (validate_context c = Inr ()
      \<and> (list_ex (\<lambda>w. \<not> str_isalpha U w) (str_split t) \<or> list_ex (neither_case U) (str_split t)
         \<or> \<not> distinct (map (str_lower U) (filter (str_isupper U) (str_split t)))))"
proof (cases "validate_context c")
  case (Inl e)
  then have "\<exists>l. e = ValueError l"
    by (auto simp: validate_context_def Let_def split: option.splits if_splits)
  with Inl show ?thesis by (auto simp: Pattern_init_def)
next
  case (Inr u)
  have "(\<exists>k. Pattern_init U t c = Inl (InvalidCommand k))
        = (\<exists>k. compile_words U (str_split t) [] [] 0 = Inl (InvalidCommand k))"
    using Inr by (auto simp: Pattern_init_def Let_def split: sum.splits)
  with Inr show ?thesis by (simp add: compile_words_fails)
qed

text \<open>
  Claim C5, as stated, fails for a word of letters without case:
  \<open>Pattern('take \<dots>')\<close> with the ideograph U+4E2D as second word raises
  \<open>InvalidCommand\<close> (the word passes \<open>isalpha\<close> and fails both \<open>isupper\<close> and
  \<open>islower\<close>), though no word has a character that is not a letter, no word has both an
  upper-case and a lower-case letter, and no placeholder name repeats. This is so
  whatever the tables say of other characters.
\<close>

lemma uncased_letter_rejected:
  "Pattern_init U (str ''take '' @ [20013]) None = Inl (InvalidCommand MixedCase)
   \<and> \<not> list_ex (\<lambda>w. list_ex (\<lambda>c. \<not> isalpha_c U c) w) (str_split (str ''take '' @ [20013]))
   \<and> \<not> list_ex (mixed_case U) (str_split (str ''take '' @ [20013]))
   \<and> distinct (map (str_lower U) (filter (str_isupper U) (str_split (str ''take '' @ [20013]))))"
  by (simp add: init_eval mixed_case_def)

theorem Pattern_init_uncased_letter:
  "Pattern_init plain (str ''take '' @ [20013]) None = Inl (InvalidCommand MixedCase)
   \<and> \<not> list_ex (\<lambda>w. list_ex (\<lambda>c. \<not> isalpha_c plain c) w)
          (str_split (str ''take '' @ [20013]))
   \<and> \<not> list_ex (mixed_case plain) (str_split (str ''take '' @ [20013]))
   \<and> distinct (map (str_lower plain)
                 (filter (str_isupper plain) (str_split (str ''take '' @ [20013]))))"
  by (rule uncased_letter_rejected)

text \<open>
  Claim C5, amended. Compiling a command raises \<open>InvalidCommand\<close> exactly when one of
  its words has a character that is not a letter, or is neither upper-case nor
  lower-case for \<open>isupper\<close> and \<open>islower\<close> (it mixes the cases, or has a title-case
  letter, or has no cased letter), or when two placeholders have the same name. This is
  so for the default context \<open>None\<close> and for every valid context; with an invalid context
  the \<open>ValueError\<close> of the context comes first. \<open>take ITEM\<close> compiles, with the one
  placeholder name \<open>item\<close>; \<open>take Item\<close> and \<open>take ITEM ITEM\<close> do not compile.
\<close>

theorem Pattern_init_invalid_iff:
  "(\<exists>k. Pattern_init U t None = Inl (InvalidCommand k)) =
     (list_ex (\<lambda>w. list_ex (\<lambda>c. \<not> isalpha_c U c) w) (str_split t)
      \<or> list_ex (neither_case U) (str_split t)
      \<or> \<not> distinct (map (str_lower U) (filter (str_isupper U) (str_split t))))
   \<and> (\<exists>k. Pattern_init U t c = Inl (InvalidCommand k)) =
     (validate_context c = Inr ()
      \<and> (list_ex (\<lambda>w. list_ex (\<lambda>c. \<not> isalpha_c U c) w) (str_split t)
         \<or> list_ex (neither_case U) (str_split t)
         \<or> \<not> distinct (map (str_lower U) (filter (str_isupper U) (str_split t)))))
   \<and> neither_case U w =
       (mixed_case U w \<or> list_ex (istitle_c U) w
        \<or> (\<not> list_ex (isupper_c U) w \<and> \<not> list_ex (islower_c U) w))
   \<and> (\<exists>p. Pattern_init U (str ''take ITEM'') None = Inr p \<and> argnames p = [str ''item''])
   \<and> Pattern_init U (str ''take Item'') None = Inl (InvalidCommand MixedCase)
   \<and> mixed_case U (str ''Item'')
   \<and> Pattern_init U (str ''take ITEM ITEM'') None = Inl (InvalidCommand UsedOnce)"
proof -
  have none: "validate_context None = Inr ()" by (simp add: validate_context_def)
  have e1: "\<exists>p. Pattern_init U (str ''take ITEM'') None = Inr p \<and> argnames p = [str ''item'']"
    by (simp add: init_eval)
  have e2: "Pattern_init U (str ''take Item'') None = Inl (InvalidCommand MixedCase)"
    by (simp add: init_eval)
  have e2': "mixed_case U (str ''Item'')"
    by (simp add: mixed_case_def str_eval)
  have e3: "Pattern_init U (str ''take ITEM ITEM'') None = Inl (InvalidCommand UsedOnce)"
    by (simp add: init_eval)
  have a: "(\<exists>k. Pattern_init U t None = Inl (InvalidCommand k)) =
     (list_ex (\<lambda>w. list_ex (\<lambda>c. \<not> isalpha_c U c) w) (str_split t)
      \<or> list_ex (neither_case U) (str_split t)
      \<or> \<not> distinct (map (str_lower U) (filter (str_isupper U) (str_split t))))"
    using Pattern_init_fails [of U t None] none by (simp add: split_not_isalpha)
  have b: "(\<exists>k. Pattern_init U t c = Inl (InvalidCommand k)) =
     (validate_context c = Inr ()
      \<and> (list_ex (\<lambda>w. list_ex (\<lambda>c. \<not> isalpha_c U c) w) (str_split t)
         \<or> list_ex (neither_case U) (str_split t)
         \<or> \<not> distinct (map (str_lower U) (filter (str_isupper U) (str_split t)))))"
    using Pattern_init_fails [of U t c] by (simp add: split_not_isalpha)
  from a b neither_case_iff [of U w] e1 e2 e2' e3 show ?thesis by (intro conjI)
qed

theorem Pattern_init_invalid_iff_witness:
  "\<not> distinct (map (str_lower plain)
        (filter (str_isupper plain) (str_split (str ''take ITEM ITEM''))))
   \<and> (\<exists>k. Pattern_init plain (str ''take ITEM ITEM'') None = Inl (InvalidCommand k))"
proof -
  have d: "\<not> distinct (map (str_lower plain)
        (filter (str_isupper plain) (str_split (str ''take ITEM ITEM''))))"
    by (simp add: str_eval)
  from d Pattern_init_invalid_iff [of plain "str ''take ITEM ITEM''" None] show ?thesis
    by blast
qed

section \<open>The combinations of word counts\<close>

text \<open>
  Every combination has one count per placeholder, every count is at least one, and the
  counts add up to \<open>have\<close>.
\<close>

lemma wc_props:
  "\<forall>c\<in>set (word_combinations hv n). length c = n \<and> sum_list c = hv \<and> list_all (\<lambda>x. 1 \<le> x) c"
  "\<forall>c\<in>set (combinations_loop hv g tk).
      length c = Suc g \<and> sum_list c = hv \<and> list_all (\<lambda>x. 1 \<le> x) c"
proof (induction hv n and hv g tk rule: word_combinations_combinations_loop.induct)
  case (1 hv n)
  show ?case
  proof (cases "hv < int n \<or> hv = int n \<or> n = 1 \<or> n = 0")
    case True
    then show ?thesis
      by (auto simp: word_combinations.simps [of hv n] list_all_iff sum_list_replicate)
  next
    case False
    then have "word_combinations hv n = combinations_loop hv (n - 1) (hv - int (n - 1))"
      by (simp add: word_combinations.simps [of hv n])
    with False "1.IH" show ?thesis by simp
  qed
next
  case (2 hv g tk)
  show ?case
  proof (cases "tk > 0")
    case False
    then show ?thesis by (simp add: combinations_loop.simps [of hv g tk])
  next
    case True
    show ?thesis
    proof (cases "hv \<ge> int g")
      case ge: True
      with True "2.IH" show ?thesis
        by (auto simp: combinations_loop.simps [of hv g tk])
    next
      case False
      with True "2.IH" show ?thesis
        by (auto simp: combinations_loop.simps [of hv g tk])
    qed
  qed
qed

text \<open>The combinations come in strictly decreasing lexicographic order.\<close>

lemma wc_sorted:
  "sorted_wrt lex_greater (word_combinations hv n)"
  "sorted_wrt lex_greater (combinations_loop hv g tk)
   \<and> (\<forall>c\<in>set (combinations_loop hv g tk). \<exists>x xs. c = x # xs \<and> x \<le> tk)"
proof (induction hv n and hv g tk rule: word_combinations_combinations_loop.induct)
  case (1 hv n)
  show ?case
  proof (cases "hv < int n \<or> hv = int n \<or> n = 1 \<or> n = 0")
    case True
    then show ?thesis
      by (auto simp: word_combinations.simps [of hv n])
  next
    case False
    then have "word_combinations hv n = combinations_loop hv (n - 1) (hv - int (n - 1))"
      by (simp add: word_combinations.simps [of hv n])
    with False "1.IH" show ?thesis by simp
  qed
next
  case (2 hv g tk)
  show ?case
  proof (cases "tk > 0")
    case False
    then show ?thesis by (simp add: combinations_loop.simps [of hv g tk])
  next
    case True
    note IH2 = "2.IH"(2) [OF True]
    have later: "\<forall>c\<in>set (combinations_loop hv g (tk - 1)). \<exists>x xs. c = x # xs \<and> x < tk"
      using IH2 by fastforce
    show ?thesis
    proof (cases "hv \<ge> int g")
      case ge: True
      note IH1 = "2.IH"(1) [OF True ge]
      have eq: "combinations_loop hv g tk =
           map (\<lambda>buckets. tk # buckets) (word_combinations (hv - tk) g)
           @ combinations_loop hv g (tk - 1)"
        using True ge by (simp add: combinations_loop.simps [of hv g tk])
      have a: "sorted_wrt lex_greater (map (\<lambda>buckets. tk # buckets) (word_combinations (hv - tk) g))"
        using IH1 by (simp add: sorted_wrt_map)
      have b: "\<forall>c\<in>set (map (\<lambda>buckets. tk # buckets) (word_combinations (hv - tk) g)).
                 \<forall>d\<in>set (combinations_loop hv g (tk - 1)). lex_greater c d"
        using later by fastforce
      from a b IH2 later show ?thesis
        unfolding eq by (fastforce simp: sorted_wrt_append)
    next
      case False
      have eq: "combinations_loop hv g tk = combinations_loop hv g (tk - 1)"
        using True False by (simp add: combinations_loop.simps [of hv g tk])
      from IH2 later show ?thesis unfolding eq by fastforce
    qed
  qed
qed

text \<open>The first combination gives the first placeholder all the words it can get.\<close>

lemma wc_greedy_first:
  assumes "1 \<le> n" and "int n \<le> hv"
  shows "\<exists>rest. word_combinations hv n = ((hv - int (n - 1)) # replicate (n - 1) 1) # rest"
proof (cases "hv = int n \<or> n = 1")
  case True
  then show ?thesis
  proof
    assume eq: "hv = int n"
    from assms(1) have "replicate n (1::int) = 1 # replicate (n - 1) 1"
      by (cases n) simp_all
    moreover from eq have "word_combinations hv n = [replicate n 1]"
      by (simp add: word_combinations.simps [of "int n" n])
    moreover from eq assms(1) have "hv - int (n - 1) = 1" by simp
    ultimately show ?thesis by simp
  next
    assume one: "n = 1"
    with assms(2) have "word_combinations hv n = [[hv]]"
      by (cases "hv = 1")
         (simp_all add: word_combinations.simps [of hv "Suc 0"]
            word_combinations.simps [of 1 "Suc 0"])
    with one show ?thesis by simp
  qed
next
  case False
  with assms have tk: "hv - int (n - 1) > 0" and ge: "hv \<ge> int (n - 1)" by auto
  from False assms have "word_combinations hv n
      = combinations_loop hv (n - 1) (hv - int (n - 1))"
    by (simp add: word_combinations.simps [of hv n])
  also have "\<dots> = map (\<lambda>buckets. (hv - int (n - 1)) # buckets)
                    (word_combinations (hv - (hv - int (n - 1))) (n - 1))
                  @ combinations_loop hv (n - 1) (hv - int (n - 1) - 1)"
    using tk ge by (subst combinations_loop.simps) simp
  also have "word_combinations (hv - (hv - int (n - 1))) (n - 1) = [replicate (n - 1) 1]"
    by (subst word_combinations.simps) simp
  finally show ?thesis by simp
qed

section \<open>Matching\<close>

lemma try_combos_first:
  "try_combos pat inp combos =
     (case List.find (\<lambda>combo. completed (walk pat combo inp Map.empty) \<noteq> None) combos of
        None \<Rightarrow> None
      | Some combo \<Rightarrow>
          map_option (\<lambda>m. map_option str_join \<circ> m) (completed (walk pat combo inp Map.empty)))"
proof (induction combos)
  case Nil
  show ?case by simp
next
  case (Cons combo combos)
  then show ?case by (cases "walk pat combo inp Map.empty") simp_all
qed

lemma try_combos_Some:
  "try_combos pat inp combos = Some mf \<Longrightarrow>
     \<exists>combo\<in>set combos. \<exists>m. walk pat combo inp Map.empty = Completed m
        \<and> mf = map_option str_join \<circ> m"
proof (induction combos)
  case Nil
  then show ?case by simp
next
  case (Cons combo combos)
  then show ?case by (cases "walk pat combo inp Map.empty") auto
qed

lemma next_words_Some:
  "next_words k inp = Some (ws, inp') \<Longrightarrow> inp = ws @ inp' \<and> length ws = k"
  by (induction k inp arbitrary: ws inp' rule: next_words.induct)
     (auto split: option.splits)

text \<open>
  A completed pass: the input starts with the words of the pattern, each placeholder
  standing for the run of words stored under its name.
\<close>

lemma walk_Completed:
  assumes "walk pat tk inp m0 = Completed m"
    and "distinct (map tok_name (filter is_placeholder pat))"
    and "length tk = length (filter is_placeholder pat)"
    and "list_all (\<lambda>x. 1 \<le> x) tk"
  shows "(\<forall>a. a \<notin> set (map tok_name (filter is_placeholder pat)) \<longrightarrow> m a = m0 a)
       \<and> (\<forall>a\<in>set (map tok_name (filter is_placeholder pat)). \<exists>ws. m a = Some ws \<and> ws \<noteq> [])
       \<and> (\<exists>rest. inp = concat (map (expand m) pat) @ rest
            \<and> int (length rest) = int (length inp) - sum_list tk
                 - int (length (filter (\<lambda>t. \<not> is_placeholder t) pat)))"
  using assms
proof (induction pat tk inp m0 rule: walk.induct)
  case (1 tk inp matches)
  then show ?case by simp
next
  case (2 name cs tk inp matches)
  from "2.prems"(1) obtain count tk' ws inp'
    where tk: "tk = count # tk'"
      and nw: "next_words (nat count) inp = Some (ws, inp')"
      and w: "walk cs tk' inp' (matches(name \<mapsto> ws)) = Completed m"
    by (auto split: list.splits option.splits)
  from next_words_Some [OF nw] have inp: "inp = ws @ inp'" and len: "length ws = nat count"
    by simp_all
  from "2.prems" tk have d: "distinct (map tok_name (filter is_placeholder cs))"
    and fresh: "name \<notin> set (map tok_name (filter is_placeholder cs))"
    and l: "length tk' = length (filter is_placeholder cs)"
    and pos: "list_all (\<lambda>x. 1 \<le> x) tk'" and cpos: "1 \<le> count"
    by simp_all
  note IH = "2.IH" [OF tk nw refl w d l pos]
  from IH fresh have mname: "m name = Some ws" by simp
  from len cpos have ne: "ws \<noteq> []" by auto
  from IH obtain rest where rest: "inp' = concat (map (expand m) cs) @ rest"
    and rl: "int (length rest) = int (length inp') - sum_list tk'
                 - int (length (filter (\<lambda>t. \<not> is_placeholder t) cs))"
    by blast
  have c: "inp = concat (map (expand m) (Placeholder name # cs)) @ rest"
    using inp rest mname by simp
  have "int (length inp) = count + int (length inp')"
    using inp len cpos by simp
  with rl tk have r: "int (length rest) = int (length inp) - sum_list tk
                 - int (length (filter (\<lambda>t. \<not> is_placeholder t) (Placeholder name # cs)))"
    by simp
  from IH mname ne c r show ?case by auto
next
  case (3 cword cs tk inp matches)
  from "3.prems"(1) obtain inp' where inp: "inp = cword # inp'"
    and w: "walk cs tk inp' matches = Completed m"
    by (auto split: list.splits if_splits)
  from "3.prems" have d: "distinct (map tok_name (filter is_placeholder cs))"
    and l: "length tk = length (filter is_placeholder cs)"
    by simp_all
  have neq: "\<not> cword \<noteq> cword" by simp
  note IH = "3.IH" [OF inp neq w d l "3.prems"(4)]
  from IH obtain rest where rest: "inp' = concat (map (expand m) cs) @ rest"
    and rl: "int (length rest) = int (length inp') - sum_list tk
                 - int (length (filter (\<lambda>t. \<not> is_placeholder t) cs))"
    by blast
  from rest rl inp IH show ?case by auto
qed

lemma placeholder_name_in_set:
  "a \<in> set (map tok_name (filter is_placeholder pat)) \<Longrightarrow> Placeholder a \<in> set pat"
proof (induction pat)
  case Nil
  then show ?case by simp
next
  case (Cons x xs)
  then show ?case by (cases x) auto
qed

lemma placeholder_in_names:
  "Placeholder a \<in> set pat \<Longrightarrow> a \<in> set (map tok_name (filter is_placeholder pat))"
  by (induction pat) force+

lemma count_literals:
  "int (length (filter (\<lambda>t. \<not> is_placeholder t) pat))
     = int (length pat) - int (length (filter is_placeholder pat))"
  using sum_length_filter_compl [of is_placeholder pat] by simp

text \<open>What a successful \<open>match\<close> went through.\<close>

lemma match_Some_cases:
  assumes "match p ws = Some mf"
  shows "ws = prefix p @ drop (length (prefix p)) ws"
    and "(drop (length (prefix p)) ws = [] \<and> pattern p = [] \<and> mf = Map.empty)
       \<or> (drop (length (prefix p)) ws \<noteq> [] \<and> pattern p \<noteq> []
          \<and> try_combos (pattern p) (drop (length (prefix p)) ws)
               (word_combinations (int (length (drop (length (prefix p)) ws)) - fixed p)
                  (placeholders p)) = Some mf)"
proof -
  from assms have pre: "take (length (prefix p)) ws = prefix p"
    by (simp add: match_def split: if_splits)
  have "ws = take (length (prefix p)) ws @ drop (length (prefix p)) ws" by simp
  with pre show "ws = prefix p @ drop (length (prefix p)) ws" by simp
  from assms pre show "(drop (length (prefix p)) ws = [] \<and> pattern p = [] \<and> mf = Map.empty)
       \<or> (drop (length (prefix p)) ws \<noteq> [] \<and> pattern p \<noteq> []
          \<and> try_combos (pattern p) (drop (length (prefix p)) ws)
               (word_combinations (int (length (drop (length (prefix p)) ws)) - fixed p)
                  (placeholders p)) = Some mf)"
    by (simp add: match_def Let_def split: if_splits)
qed

text \<open>A completed pass over a compiled pattern, for a combination that was generated.\<close>

lemma walk_generated:
  assumes wf: "wf_pattern U p"
    and combo: "combo \<in> set (word_combinations (int (length inp) - fixed p) (placeholders p))"
    and walk: "walk (pattern p) combo inp Map.empty = Completed m"
  shows "dom m = set (argnames p)"
    and "\<forall>a\<in>set (argnames p). \<exists>run. m a = Some run \<and> run \<noteq> []"
    and "inp = concat (map (expand m) (pattern p))"
proof -
  let ?pat = "pattern p"
  from wf have names: "argnames p = map tok_name (filter is_placeholder ?pat)"
    and da: "distinct (argnames p)"
    and n: "placeholders p = length (filter is_placeholder ?pat)"
    and fx: "fixed p = int (length ?pat) - int (placeholders p)"
    unfolding wf_pattern_def by blast+
  from da names have dist: "distinct (map tok_name (filter is_placeholder ?pat))"
    by simp
  from wc_props(1) combo have len: "length combo = length (filter is_placeholder ?pat)"
    and sum: "sum_list combo = int (length inp) - fixed p"
    and pos: "list_all (\<lambda>x. 1 \<le> x) combo"
    using n by auto
  note W = walk_Completed [OF walk dist len pos]
  from W have outside: "\<forall>a. a \<notin> set (argnames p) \<longrightarrow> m a = None"
    and inside: "\<forall>a\<in>set (argnames p). \<exists>run. m a = Some run \<and> run \<noteq> []"
    using names by simp_all
  from inside show "\<forall>a\<in>set (argnames p). \<exists>run. m a = Some run \<and> run \<noteq> []" .
  from outside inside show "dom m = set (argnames p)" by (auto simp: dom_def)
  from W obtain rest where inp: "inp = concat (map (expand m) ?pat) @ rest"
    and rl: "int (length rest) = int (length inp) - sum_list combo
               - int (length (filter (\<lambda>t. \<not> is_placeholder t) ?pat))"
    by blast
  from rl sum fx n count_literals [of ?pat] have "length rest = 0" by simp
  with inp show "inp = concat (map (expand m) ?pat)" by simp
qed

text \<open>
  Claim C1. \<open>Pattern('use ITEM on FIXTURE')\<close> matches the words
  \<open>use small brass key on heavy wooden door\<close> with \<open>item = 'small brass key'\<close> and
  \<open>fixture = 'heavy wooden door'\<close>. The combinations tried are
  \<open>(5, 1), (4, 2), (3, 3), (2, 4), (1, 5)\<close> in this order: the first two stop at the
  literal \<open>on\<close>, the third completes and is returned. In general, for one or more
  placeholders, the combinations come in strictly decreasing lexicographic order and the
  first one gives the first placeholder every word it can get; \<open>match\<close> returns the
  captures of the first combination whose pass over the pattern completes.
\<close>

theorem match_use_item_on_fixture:
  "Pattern_init U (str ''use ITEM on FIXTURE'') None = Inr use_pattern
   \<and> word_combinations (int (length [str ''small'', str ''brass'', str ''key'', str ''on'', str ''heavy'', str ''wooden'', str ''door''])
        - fixed use_pattern) (placeholders use_pattern)
       = [[5, 1], [4, 2], [3, 3], [2, 4], [1, 5]]
   \<and> walk (pattern use_pattern) [5, 1]
        [str ''small'', str ''brass'', str ''key'', str ''on'', str ''heavy'', str ''wooden'', str ''door''] Map.empty = Break
   \<and> walk (pattern use_pattern) [4, 2]
        [str ''small'', str ''brass'', str ''key'', str ''on'', str ''heavy'', str ''wooden'', str ''door''] Map.empty = Break
   \<and> walk (pattern use_pattern) [3, 3]
        [str ''small'', str ''brass'', str ''key'', str ''on'', str ''heavy'', str ''wooden'', str ''door''] Map.empty
       = Completed [str ''item'' \<mapsto> [str ''small'', str ''brass'', str ''key''],
                    (str ''fixture'') \<mapsto> [str ''heavy'', str ''wooden'', str ''door'']]
   \<and> match use_pattern
        [str ''use'', str ''small'', str ''brass'', str ''key'', str ''on'', str ''heavy'', str ''wooden'', str ''door'']
       = Some [str ''item'' \<mapsto> (str ''small brass key''), str ''fixture'' \<mapsto> (str ''heavy wooden door'')]
   \<and> (1 \<le> n \<longrightarrow> sorted_wrt lex_greater (word_combinations hv n))
   \<and> (1 \<le> n \<and> int n \<le> hv \<longrightarrow>
        (\<exists>rest. word_combinations hv n = ((hv - int (n - 1)) # replicate (n - 1) 1) # rest))
   \<and> try_combos pat inp combos =
       (case List.find (\<lambda>combo. completed (walk pat combo inp Map.empty) \<noteq> None) combos of
          None \<Rightarrow> None
        | Some combo \<Rightarrow>
            map_option (\<lambda>m. map_option str_join \<circ> m) (completed (walk pat combo inp Map.empty)))"
proof -
  have i: "Pattern_init U (str ''use ITEM on FIXTURE'') None = Inr use_pattern"
    by (simp add: init_eval use_pattern_def)
  have c: "word_combinations (int (length [str ''small'', str ''brass'', str ''key'', str ''on'', str ''heavy'', str ''wooden'', str ''door''])
        - fixed use_pattern) (placeholders use_pattern)
       = [[5, 1], [4, 2], [3, 3], [2, 4], [1, 5]]"
    by (simp add: use_pattern_def wc_eval)
  have w1: "walk (pattern use_pattern) [5, 1]
        [str ''small'', str ''brass'', str ''key'', str ''on'', str ''heavy'', str ''wooden'', str ''door''] Map.empty = Break"
    by (simp add: use_pattern_def eval_nat_numeral)
  have w2: "walk (pattern use_pattern) [4, 2]
        [str ''small'', str ''brass'', str ''key'', str ''on'', str ''heavy'', str ''wooden'', str ''door''] Map.empty = Break"
    by (simp add: use_pattern_def eval_nat_numeral)
  have w3: "walk (pattern use_pattern) [3, 3]
        [str ''small'', str ''brass'', str ''key'', str ''on'', str ''heavy'', str ''wooden'', str ''door''] Map.empty
       = Completed [str ''item'' \<mapsto> [str ''small'', str ''brass'', str ''key''],
                    (str ''fixture'') \<mapsto> [str ''heavy'', str ''wooden'', str ''door'']]"
    by (simp add: use_pattern_def eval_nat_numeral)
  have m: "match use_pattern
        [str ''use'', str ''small'', str ''brass'', str ''key'', str ''on'', str ''heavy'', str ''wooden'', str ''door'']
       = Some [str ''item'' \<mapsto> (str ''small brass key''), str ''fixture'' \<mapsto> (str ''heavy wooden door'')]"
    by (simp add: match_def use_pattern_def Let_def wc_eval eval_nat_numeral)
  have g: "1 \<le> n \<and> int n \<le> hv \<longrightarrow>
        (\<exists>rest. word_combinations hv n = ((hv - int (n - 1)) # replicate (n - 1) 1) # rest)"
    using wc_greedy_first [of n hv] by blast
  have s: "1 \<le> n \<longrightarrow> sorted_wrt lex_greater (word_combinations hv n)"
    using wc_sorted(1) [of hv n] by simp
  from i c w1 w2 w3 m s g try_combos_first [of pat inp combos]
  show ?thesis by (intro conjI)
qed

theorem match_use_item_on_fixture_witness:
  "(1::nat) \<le> 2 \<and> int 2 \<le> 6
   \<and> sorted_wrt lex_greater (word_combinations 6 2)
   \<and> (\<exists>rest. word_combinations 6 2 = [5, 1] # rest)"
  using match_use_item_on_fixture [where hv = 6 and n = 2] by simp

lemma take_drop_eq: "(take (length xs) ws = xs \<and> drop (length xs) ws = []) = (ws = xs)"
proof
  assume a: "take (length xs) ws = xs \<and> drop (length xs) ws = []"
  have "ws = take (length xs) ws @ drop (length xs) ws" by simp
  with a show "ws = xs" by simp
qed simp

lemma match_empty_pattern:
  assumes "pattern p = []" and "argnames p = []"
  shows "match p ws = (if ws = prefix p then Some Map.empty else None)"
  using assms take_drop_eq [of "prefix p" ws]
  by (auto simp: match_def Let_def)

text \<open>
  Claim C8. A pattern compiled from a command without placeholders has all the words of
  the command as its prefix, and \<open>match\<close> succeeds (with no captures) exactly on the
  input that equals this word list. \<open>quit\<close> matches \<open>['quit']\<close> and does not match
  \<open>['quit', 'now']\<close>.
\<close>

theorem match_no_placeholders:
  assumes "Pattern_init U t c = Inr p" and "placeholders p = 0"
  shows "prefix p = str_split t \<and> pattern p = []
         \<and> (match p ws \<noteq> None) = (ws = str_split t)
         \<and> match p ws = (if ws = str_split t then Some Map.empty else None)"
proof -
  note wf = Pattern_init_Inr(5) [OF assms(1)] and toks = Pattern_init_Inr(4) [OF assms(1)]
  from wf assms(2) have nof: "filter is_placeholder (pattern p) = []"
    by (simp add: wf_pattern_def)
  have pat: "pattern p = []"
  proof (cases "pattern p")
    case (Cons x xs)
    with wf have "is_placeholder x" by (simp add: wf_pattern_def)
    with Cons nof show ?thesis by simp
  qed simp
  from wf nof have args: "argnames p = []" by (simp add: wf_pattern_def)
  from toks pat have lits: "map Lit (prefix p) = map (word_tok U) (str_split t)" by simp
  have "word_tok U w = Lit w" if "w \<in> set (str_split t)" for w
  proof -
    from that have "word_tok U w \<in> set (map Lit (prefix p))" using lits by simp
    then show ?thesis by (auto simp: word_tok_def split: if_splits)
  qed
  then have same: "map (word_tok U) (str_split t) = map Lit (str_split t)" by simp
  have "inj Lit" by (simp add: inj_def)
  with lits same have pre: "prefix p = str_split t"
    by (simp add: inj_map_eq_map)
  from match_empty_pattern [OF pat args, of ws] pre pat show ?thesis by simp
qed

theorem match_no_placeholders_witness:
  "Pattern_init plain (str ''quit'') None = Inr quit_pattern \<and> placeholders quit_pattern = 0
   \<and> match quit_pattern [str ''quit''] = Some Map.empty
   \<and> match quit_pattern [str ''quit'', str ''now''] = None"
proof -
  have i: "Pattern_init plain (str ''quit'') None = Inr quit_pattern"
    by (simp add: init_eval quit_pattern_def)
  have z: "placeholders quit_pattern = 0" by (simp add: quit_pattern_def)
  have s: "str_split (str ''quit'') = [str ''quit'']" by (simp add: str_eval)
  from match_no_placeholders [OF i z, of "[str ''quit'']"]
    match_no_placeholders [OF i z, of "[str ''quit'', str ''now'']"] i z s
  show ?thesis by simp
qed

lemma no_upper_map_lower: "\<not> list_ex (isupper_c U) w \<Longrightarrow> map lower_c w = w"
proof (induction w)
  case Nil
  show ?case by simp
next
  case (Cons c w)
  from Cons.prems have nu: "\<not> isupper_c U c" by simp
  have "lower_c c = c"
  proof (cases "c < 256")
    case True
    with nu show ?thesis by (simp add: isupper_c_def lower_c_def)
  next
    case False
    then show ?thesis by (simp add: lower_c_def)
  qed
  with Cons show ?case by simp
qed

lemma islower_str_lower: "str_islower U w \<Longrightarrow> str_lower U w = w"
proof -
  assume l: "str_islower U w"
  then have none: "\<not> list_ex (\<lambda>c. isupper_c U c \<or> istitle_c U c) w"
    by (simp add: str_islower_def)
  then have a: "\<not> list_ex (\<lambda>c. 256 \<le> c \<and> (isupper_c U c \<or> istitle_c U c)) w"
    and b: "\<not> list_ex (isupper_c U) w"
    by (auto simp: list_ex_iff)
  from a have "str_lower U w = map lower_c w" by (simp add: str_lower_def)
  with no_upper_map_lower [OF b] show ?thesis by simp
qed

lemma all_islower_map_lower: "list_all (str_islower U) ws \<Longrightarrow> map (str_lower U) ws = ws"
  by (induction ws) (simp_all add: islower_str_lower)

text \<open>
  Claim C9. For a compiled pattern, \<open>match\<close> returns \<open>None\<close> when the input has fewer
  words than the pattern has placeholders, and when the first \<open>len(prefix)\<close> words of the
  input differ from the prefix. The prefix is in lower case, so this also holds when the
  words are compared without regard to case: words that differ from the prefix after
  lowering differ from it as they are.
\<close>

theorem match_fast_reject:
  assumes "Pattern_init U t c = Inr p"
  shows "(length ws < placeholders p \<longrightarrow> match p ws = None)
       \<and> (take (length (prefix p)) ws \<noteq> prefix p \<longrightarrow> match p ws = None)
       \<and> (map (str_lower U) (take (length (prefix p)) ws) \<noteq> prefix p \<longrightarrow> match p ws = None)"
proof -
  note wf = Pattern_init_Inr(5) [OF assms]
  from wf have len: "length (argnames p) = placeholders p" by (simp add: wf_pattern_def)
  from wf have "map (str_lower U) (prefix p) = prefix p"
    by (simp add: wf_pattern_def all_islower_map_lower)
  then have ci: "map (str_lower U) (take (length (prefix p)) ws) \<noteq> prefix p
                 \<Longrightarrow> take (length (prefix p)) ws \<noteq> prefix p"
    by auto
  from len ci show ?thesis by (auto simp: match_def)
qed

text \<open>
  \<open>match\<close> itself compares the words as they are; \<open>dispatch_command\<close> lowers the line
  before it splits it.
\<close>

lemma match_compares_exactly: "match quit_pattern [str ''QUIT''] = None"
  by (simp add: match_def quit_pattern_def)

theorem match_fast_reject_witness:
  "Pattern_init plain (str ''take ITEM'') None = Inr take_item_pattern
   \<and> length ([] :: pystr list) < placeholders take_item_pattern
   \<and> take (length (prefix take_item_pattern)) [str ''Grab'', str ''key''] \<noteq> prefix take_item_pattern
   \<and> map (str_lower plain) (take (length (prefix take_item_pattern)) [str ''Grab'', str ''key''])
       \<noteq> prefix take_item_pattern
   \<and> match take_item_pattern [] = None
   \<and> match take_item_pattern [str ''Grab'', str ''key''] = None"
proof -
  have i: "Pattern_init plain (str ''take ITEM'') None = Inr take_item_pattern"
    by (simp add: init_eval take_item_pattern_def)
  have a: "length ([] :: pystr list) < placeholders take_item_pattern"
    by (simp add: take_item_pattern_def)
  have b: "take (length (prefix take_item_pattern)) [str ''Grab'', str ''key''] \<noteq> prefix take_item_pattern"
    by (simp add: take_item_pattern_def)
  have c: "map (str_lower plain) (take (length (prefix take_item_pattern)) [str ''Grab'', str ''key''])
       \<noteq> prefix take_item_pattern"
    by (simp add: take_item_pattern_def str_eval)
  from match_fast_reject [OF i, of "[]"] match_fast_reject [OF i, of "[str ''Grab'', str ''key'']"]
    i a b c
  show ?thesis by simp
qed

lemma split_sp_from_word:
  "32 \<notin> set w \<Longrightarrow> split_sp_from cur w = [cur @ w]"
  by (induction w arbitrary: cur) auto

lemma split_sp_from_word_sp:
  "32 \<notin> set w \<Longrightarrow>
     split_sp_from cur (w @ 32 # rest) = (cur @ w) # split_sp_from [] rest"
  by (induction w arbitrary: cur) auto

lemma split_sp_join:
  "ws \<noteq> [] \<Longrightarrow> list_all (\<lambda>w. of_char (CHR '' '') \<notin> set w) ws
     \<Longrightarrow> str_split_sp (str_join ws) = ws"
proof (induction ws rule: str_join.induct)
  case 1
  then show ?case by simp
next
  case (2 w)
  then show ?case by (simp add: str_split_sp_def split_sp_from_word)
next
  case (3 w v vs)
  then show ?case by (simp add: str_split_sp_def split_sp_from_word_sp)
qed

text \<open>
  Claim C10. The word lists that \<open>match\<close> is called with are those that \<open>split()\<close>
  returns (\<open>cmd.lower().split()\<close> in both callers). When \<open>match\<close> on a compiled pattern
  returns captures for such a word list, every captured string is the join by single
  spaces of one or more consecutive input words, and the prefix followed by the tokens of
  the pattern, each placeholder replaced by its captured string split on single spaces, is
  the input word list. The captured names are the placeholder names of the pattern, and
  the replay gives the input for every word list whose words hold no space.
\<close>

theorem match_round_trip:
  assumes init: "Pattern_init U t c = Inr p" and m: "match p ws = Some mf"
  shows "dom mf = set (argnames p)
       \<and> (\<forall>a\<in>set (argnames p). \<exists>i k. 1 \<le> k \<and> i + k \<le> length ws
             \<and> mf a = Some (str_join (take k (drop i ws))))
       \<and> (list_all (\<lambda>w. of_char (CHR '' '') \<notin> set w) ws \<longrightarrow> replay p mf = ws)
       \<and> ((\<exists>s. ws = str_split s) \<longrightarrow> replay p mf = ws)"
proof -
  note wf = Pattern_init_Inr(5) [OF init]
  have tokenized: "list_all (\<lambda>w. of_char (CHR '' '') \<notin> set w) ws" if "\<exists>s. ws = str_split s"
    using that str_split_words(2) by (auto simp: list_all_iff)
  let ?n = "length (prefix p)"
  let ?inp = "drop ?n ws"
  note ws = match_Some_cases(1) [OF m]
  from match_Some_cases(2) [OF m] show ?thesis
  proof
    assume e: "?inp = [] \<and> pattern p = [] \<and> mf = Map.empty"
    with wf have "argnames p = []" by (simp add: wf_pattern_def)
    with e ws show ?thesis by (simp add: replay_def)
  next
    assume ne: "?inp \<noteq> [] \<and> pattern p \<noteq> []
          \<and> try_combos (pattern p) ?inp
               (word_combinations (int (length ?inp) - fixed p) (placeholders p)) = Some mf"
    then obtain combo mm
      where combo: "combo \<in> set (word_combinations (int (length ?inp) - fixed p) (placeholders p))"
        and walk: "walk (pattern p) combo ?inp Map.empty = Completed mm"
        and mf: "mf = map_option str_join \<circ> mm"
      using try_combos_Some by blast
    note G = walk_generated [OF wf combo walk]
    from wf have names: "argnames p = map tok_name (filter is_placeholder (pattern p))"
      by (simp add: wf_pattern_def)
    have dom: "dom mf = set (argnames p)"
      using G(1) mf by (auto simp: dom_def)
    have runs: "\<exists>i k. 1 \<le> k \<and> i + k \<le> length ws \<and> mf a = Some (str_join (take k (drop i ws)))"
      if a: "a \<in> set (argnames p)" for a
    proof -
      from G(2) a obtain run where run: "mm a = Some run" and rne: "run \<noteq> []" by blast
      from a names have "Placeholder a \<in> set (pattern p)"
        by (simp add: placeholder_name_in_set)
      then obtain xs ys where pat: "pattern p = xs @ Placeholder a # ys"
        by (auto dest: split_list)
      let ?before = "concat (map (expand mm) xs)"
      let ?after = "concat (map (expand mm) ys)"
      from G(3) pat run have inp: "?inp = ?before @ run @ ?after" by simp
      with ws have whole: "ws = (prefix p @ ?before) @ run @ ?after" by simp
      have "take (length run) (drop (length (prefix p @ ?before)) ws) = run"
        by (subst whole) (simp del: append_assoc)
      moreover have "length (prefix p @ ?before) + length run \<le> length ws"
        by (subst whole) simp
      moreover from rne have "1 \<le> length run" by (cases run) simp_all
      moreover from run mf have "mf a = Some (str_join run)" by simp
      ultimately show ?thesis by metis
    qed
    have replay: "replay p mf = ws" if nosp: "list_all (\<lambda>w. of_char (CHR '' '') \<notin> set w) ws"
    proof -
      have same: "replay_tok mf x = expand mm x" if x: "x \<in> set (pattern p)" for x
      proof (cases x)
        case (Lit w)
        then show ?thesis by simp
      next
        case (Placeholder a)
        with x have "Placeholder a \<in> set (pattern p)" by simp
        from placeholder_in_names [OF this] have "a \<in> set (argnames p)"
          unfolding names .
        with G(2) obtain run where run: "mm a = Some run" and rne: "run \<noteq> []" by blast
        from x have "set (expand mm x) \<subseteq> set (concat (map (expand mm) (pattern p)))"
          by auto
        with Placeholder run have "set run \<subseteq> set (concat (map (expand mm) (pattern p)))"
          by simp
        with G(3) have "set run \<subseteq> set ?inp" by simp
        also have "\<dots> \<subseteq> set ws" by (rule set_drop_subset)
        finally have "list_all (\<lambda>w. of_char (CHR '' '') \<notin> set w) run"
          using nosp by (auto simp: list_all_iff)
        with rne have "str_split_sp (str_join run) = run" by (rule split_sp_join)
        with Placeholder run mf show ?thesis by simp
      qed
      then have eqm: "map (replay_tok mf) (pattern p) = map (expand mm) (pattern p)"
        by simp
      have "concat (map (replay_tok mf) (pattern p)) = concat (map (expand mm) (pattern p))"
        by (simp only: eqm)
      also have "\<dots> = ?inp" by (rule G(3) [symmetric])
      finally have "replay p mf = prefix p @ ?inp" by (simp only: replay_def)
      with ws show ?thesis by simp
    qed
    from dom runs replay tokenized show ?thesis by blast
  qed
qed

theorem match_round_trip_witness:
  "Pattern_init plain (str ''take ITEM'') None = Inr take_item_pattern
   \<and> match take_item_pattern (str_split (str ''take rusty  old key''))
       = Some [str ''item'' \<mapsto> str ''rusty old key'']
   \<and> str_split (str ''take rusty  old key'')
       = [str ''take'', str ''rusty'', str ''old'', str ''key'']
   \<and> list_all (\<lambda>w. of_char (CHR '' '') \<notin> set w) (str_split (str ''take rusty  old key''))
   \<and> replay take_item_pattern [str ''item'' \<mapsto> str ''rusty old key'']
       = str_split (str ''take rusty  old key'')
   \<and> dom [str ''item'' \<mapsto> str ''rusty old key''] = set (argnames take_item_pattern)"
proof -
  have i: "Pattern_init plain (str ''take ITEM'') None = Inr take_item_pattern"
    by (simp add: init_eval take_item_pattern_def)
  have s: "str_split (str ''take rusty  old key'')
       = [str ''take'', str ''rusty'', str ''old'', str ''key'']"
    by (simp add: str_eval)
  have m: "match take_item_pattern (str_split (str ''take rusty  old key''))
       = Some [str ''item'' \<mapsto> str ''rusty old key'']"
    unfolding s by (simp add: match_def take_item_pattern_def Let_def wc_eval eval_nat_numeral)
  have n: "list_all (\<lambda>w. of_char (CHR '' '') \<notin> set w) (str_split (str ''take rusty  old key''))"
    unfolding s by simp
  note R = match_round_trip [OF i m]
  from R have d: "dom [str ''item'' \<mapsto> str ''rusty old key''] = set (argnames take_item_pattern)"
    by (rule conjunct1)
  note R [THEN conjunct2, THEN conjunct2, THEN conjunct2]
  then have r: "replay take_item_pattern [str ''item'' \<mapsto> str ''rusty old key'']
       = str_split (str ''take rusty  old key'')"
    by blast
  from i m s n r d show ?thesis by (intro conjI)
qed

section \<open>Registering a command\<close>

text \<open>
  Claim C6. For a command that compiles to the pattern \<open>p\<close>, \<open>_register\<close> appends
  \<open>(p, func, kwargs)\<close> to the registry when the set of parameter names of the handler
  equals the placeholder names of \<open>p\<close> together with the keys of \<open>kwargs\<close>, and raises
  \<open>InvalidCommand\<close> for the wrong signature otherwise. It raises that error only so, and
  it returns only so.
\<close>

theorem register_checks_signature:
  "(Pattern_init U command c = Inr p \<longrightarrow>
      register U command f c kwargs commands =
        (if set (parameters f) = set (argnames p) \<union> dom kwargs
         then Inr (commands @ [(p, f, kwargs)])
         else Inl (InvalidCommand WrongSignature)))
   \<and> (register U command f c kwargs commands = Inl (InvalidCommand WrongSignature))
       = (\<exists>q. Pattern_init U command c = Inr q
              \<and> set (parameters f) \<noteq> set (argnames q) \<union> dom kwargs)
   \<and> (\<exists>cs. register U command f c kwargs commands = Inr cs)
       = (\<exists>q. Pattern_init U command c = Inr q
              \<and> set (parameters f) = set (argnames q) \<union> dom kwargs)"
proof -
  have nw: "Pattern_init U command c \<noteq> Inl (InvalidCommand WrongSignature)"
  proof
    assume w: "Pattern_init U command c = Inl (InvalidCommand WrongSignature)"
    then have "compile_words U (str_split command) [] [] 0 = Inl (InvalidCommand WrongSignature)"
      by (auto simp: Pattern_init_def validate_context_def Let_def
          split: sum.splits option.splits if_splits)
    moreover have "compile_words U ws m a n \<noteq> Inl (InvalidCommand WrongSignature)" for ws m a n
      by (induction ws arbitrary: m a n) (auto simp: Let_def)
    ultimately show False by simp
  qed
  show ?thesis
  proof (cases "Pattern_init U command c")
    case (Inl e)
    with nw show ?thesis by (simp add: register_def)
  next
    case (Inr q)
    then show ?thesis by (auto simp: register_def Let_def)
  qed
qed

theorem register_checks_signature_witness:
  "Pattern_init plain (str ''take ITEM'') None = Inr take_item_pattern
   \<and> set (parameters (Func [str ''item''] (body (say_handler (str ''taken'')))))
       = set (argnames take_item_pattern) \<union> dom (Map.empty :: pystr \<rightharpoonup> unit pyval)
   \<and> register plain (str ''take ITEM'') (Func [str ''item''] (body (say_handler (str ''taken'')))) None Map.empty
        builtin_commands
       = Inr (builtin_commands
              @ [(take_item_pattern, Func [str ''item''] (body (say_handler (str ''taken''))), Map.empty)])"
proof -
  have i: "Pattern_init plain (str ''take ITEM'') None = Inr take_item_pattern"
    by (simp add: init_eval take_item_pattern_def)
  have s: "set (parameters (Func [str ''item''] (body (say_handler (str ''taken'')))))
       = set (argnames take_item_pattern) \<union> dom (Map.empty :: pystr \<rightharpoonup> unit pyval)"
    by (simp add: take_item_pattern_def)
  from register_checks_signature [where command = "str ''take ITEM''" and c = None
      and p = take_item_pattern and f = "Func [str ''item''] (body (say_handler (str ''taken'')))"
      and kwargs = Map.empty and commands = builtin_commands] i s
  show ?thesis by simp
qed

section \<open>Dispatch\<close>

lemma find_filter_conj:
  "List.find P (filter Q xs) = List.find (\<lambda>x. Q x \<and> P x) xs"
  by (induction xs) simp_all

lemma find_append_Some:
  "List.find P xs = Some a \<Longrightarrow> List.find P (xs @ ys) = Some a"
  by (induction xs) (auto split: if_splits)

lemma find_Some_holds: "List.find P xs = Some a \<Longrightarrow> P a"
  by (induction xs) (auto split: if_splits)

text \<open>In a sorted list the elements of the least key come first.\<close>

lemma sorted_least_first:
  "sorted (map f ys) \<Longrightarrow> \<forall>y\<in>set ys. m \<le> f y \<Longrightarrow>
     ys = filter (\<lambda>y. f y = m) ys @ filter (\<lambda>y. f y \<noteq> m) ys"
proof (induction ys)
  case Nil
  show ?case by simp
next
  case (Cons y ys)
  show ?case
  proof (cases "f y = m")
    case True
    with Cons show ?thesis by simp
  next
    case False
    with Cons.prems have "\<forall>z\<in>set ys. f z \<noteq> m" by fastforce
    then have "filter (\<lambda>y. f y = m) ys = []" and "filter (\<lambda>y. f y \<noteq> m) ys = ys"
      by (simp_all add: filter_empty_conv filter_id_conv)
    with False show ?thesis by simp
  qed
qed

lemma try_commands_find:
  "try_commands ws cs g =
     (case List.find (\<lambda>c. match (fst c) ws \<noteq> None) cs of
        None \<Rightarrow> (Inr PNone, g)
      | Some (p, f, kwargs) \<Rightarrow>
          invoke f (kwargs ++ (map_option PStr \<circ> the (match p ws))) g)"
proof (induction cs)
  case Nil
  show ?case by simp
next
  case (Cons c cs)
  obtain p f kwargs where c: "c = (p, f, kwargs)" by (cases c)
  with Cons show ?case by (cases "match p ws") simp_all
qed

text \<open>Nesting depth of the contexts within an active context.\<close>

lemma within_order:
  assumes "is_active p (Some x)" and "x \<noteq> []"
  shows "ctx_order p \<le> count_list x (hd CONTEXT_SEP) + 1"
    and "(ctx_order p = count_list x (hd CONTEXT_SEP) + 1) = (pattern_context p = Some x)"
proof -
  let ?d = "hd CONTEXT_SEP"
  have both: "ctx_order p \<le> count_list x ?d + 1
      \<and> ((ctx_order p = count_list x ?d + 1) = (pattern_context p = Some x))"
  proof (cases "pattern_context p")
    case None
    then show ?thesis by (simp add: ctx_order_def)
  next
    case (Some c)
    with assms(1) have "x = c \<or> startswith x (c @ CONTEXT_SEP)"
      using match_context_Some [of c x] by (simp add: is_active_def)
    then show ?thesis
    proof
      assume "x = c"
      with Some assms(2) show ?thesis by (simp add: ctx_order_def)
    next
      assume "startswith x (c @ CONTEXT_SEP)"
      then have "x = (c @ CONTEXT_SEP) @ drop (length (c @ CONTEXT_SEP)) x"
        unfolding startswith_def by (metis append_take_drop_id)
      then obtain r where x: "x = c @ CONTEXT_SEP @ r" by (metis append_assoc)
      have "count_list x ?d = count_list c ?d + 1 + count_list r ?d"
        by (simp add: x CONTEXT_SEP_def str_def)
      moreover from x have "c \<noteq> x" by (simp add: CONTEXT_SEP_def str_def)
      ultimately show ?thesis using Some by (auto simp: ctx_order_def)
    qed
  qed
  from both show "ctx_order p \<le> count_list x ?d + 1" by simp
  from both show "(ctx_order p = count_list x ?d + 1) = (pattern_context p = Some x)" by simp
qed

text \<open>The commands of the active context itself are tried first, in registry order.\<close>

lemma available_scoped_first:
  assumes "x \<noteq> []"
  shows "\<exists>rest. available_commands commands (Some x)
           = filter (\<lambda>c. pattern_context (fst c) = Some x) commands @ rest"
proof -
  let ?act = "filter (\<lambda>c. is_active (fst c) (Some x)) commands"
  let ?key = "\<lambda>c. - int (ctx_order (fst c))"
  let ?m = "- int (count_list x (hd CONTEXT_SEP) + 1)"
  let ?av = "available_commands commands (Some x)"
  have av: "?av = sort_key ?key ?act" by (simp add: available_commands_def)
  have sorted: "sorted (map ?key ?av)" unfolding av by simp
  have least: "\<forall>c\<in>set ?av. ?m \<le> ?key c"
  proof
    fix c assume "c \<in> set ?av"
    then have "is_active (fst c) (Some x)" unfolding av by simp
    from within_order(1) [OF this assms] show "?m \<le> ?key c" by linarith
  qed
  have "filter (\<lambda>c. ?key c = ?m) ?av = filter (\<lambda>c. ?key c = ?m) ?act"
    unfolding av by (rule sort_key_stable)
  also have "\<dots> = filter (\<lambda>c. pattern_context (fst c) = Some x) commands"
  proof -
    have eq: "(is_active (fst c) (Some x) \<and> ?key c = ?m) = (pattern_context (fst c) = Some x)" for c
    proof (cases "is_active (fst c) (Some x)")
      case True
      with within_order(2) [OF True assms] show ?thesis by auto
    next
      case False
      then have "pattern_context (fst c) \<noteq> Some x"
        using match_context_Some [of x x] by (auto simp: is_active_def)
      with False show ?thesis by simp
    qed
    show ?thesis by (simp only: filter_filter eq)
  qed
  finally have first: "filter (\<lambda>c. ?key c = ?m) ?av
      = filter (\<lambda>c. pattern_context (fst c) = Some x) commands" .
  from sorted_least_first [OF sorted least] first show ?thesis by metis
qed

lemma dispatch_command_find:
  "case List.find (\<lambda>c. match (fst c) (str_split (str_lower U cmd)) \<noteq> None)
          (available_commands commands (current_context g)) of
     None \<Rightarrow> dispatch_command U commands cmd g = (Inr PNone, g)
   | Some (p, f, kwargs) \<Rightarrow>
       \<exists>m. match p (str_split (str_lower U cmd)) = Some m
         \<and> dispatch_command U commands cmd g = invoke f (kwargs ++ (map_option PStr \<circ> m)) g"
proof (cases "List.find (\<lambda>c. match (fst c) (str_split (str_lower U cmd)) \<noteq> None)
          (available_commands commands (current_context g))")
  case None
  then show ?thesis by (simp add: dispatch_command_def try_commands_find)
next
  case (Some c)
  obtain p f kwargs where c: "c = (p, f, kwargs)" by (cases c)
  from find_Some_holds [OF Some] c have "match p (str_split (str_lower U cmd)) \<noteq> None"
    by simp
  then obtain m where "match p (str_split (str_lower U cmd)) = Some m" by blast
  with Some c show ?thesis by (simp add: dispatch_command_def try_commands_find)
qed

lemma dispatch_command_first:
  assumes "List.find (\<lambda>c. match (fst c) (str_split (str_lower U cmd)) \<noteq> None)
             (available_commands commands (current_context g)) = Some (p, f, kwargs)"
  shows "\<exists>m. match p (str_split (str_lower U cmd)) = Some m
           \<and> dispatch_command U commands cmd g = invoke f (kwargs ++ (map_option PStr \<circ> m)) g"
  using assms dispatch_command_find [where U = U and cmd = cmd and commands = commands and g = g]
  by simp

lemma dispatch_command_scoped:
  assumes ctx: "current_context g = Some x" and ne: "x \<noteq> []"
    and first: "List.find (\<lambda>c. pattern_context (fst c) = Some x
                   \<and> match (fst c) (str_split (str_lower U cmd)) \<noteq> None) commands
                = Some (p, f, kwargs)"
  shows "\<exists>m. match p (str_split (str_lower U cmd)) = Some m
           \<and> dispatch_command U commands cmd g = invoke f (kwargs ++ (map_option PStr \<circ> m)) g"
proof -
  let ?ws = "str_split (str_lower U cmd)"
  let ?P = "\<lambda>c. match (fst c) ?ws \<noteq> None"
  from available_scoped_first [OF ne] obtain rest
    where av: "available_commands commands (Some x)
                 = filter (\<lambda>c. pattern_context (fst c) = Some x) commands @ rest"
    by blast
  from first have "List.find ?P (filter (\<lambda>c. pattern_context (fst c) = Some x) commands)
      = Some (p, f, kwargs)"
    by (simp add: find_filter_conj)
  then have "List.find ?P (available_commands commands (current_context g)) = Some (p, f, kwargs)"
    unfolding ctx av by (rule find_append_Some)
  then show ?thesis by (rule dispatch_command_first)
qed

text \<open>
  Claim C3. The commands that dispatch tries are the registered commands whose context
  is within the active context, sorted by decreasing nesting depth of their context,
  commands of equal depth in registry order. Dispatch returns \<open>None\<close> when none of them
  matches; otherwise it calls the handler of the first of them whose pattern matches,
  with the bound arguments updated by the captures, and what it returns is made of the
  outcome of this call: the value returned (\<open>OK\<close> for \<open>None\<close>), or the error string for an
  \<open>Exception\<close>. Hence, when a command of the active context \<open>x\<close> matches the input, the
  handler called is that of the first such command of the registry, whatever commands
  without context match too and wherever they stand in the registry.
\<close>

theorem dispatch_specificity:
  "set (available_commands commands cur)
     = {c \<in> set commands. match_context (pattern_context (fst c)) cur}
   \<and> sorted_wrt (\<lambda>c d. ctx_order (fst d) \<le> ctx_order (fst c)) (available_commands commands cur)
   \<and> filter (\<lambda>c. ctx_order (fst c) = k) (available_commands commands cur)
       = filter (\<lambda>c. ctx_order (fst c) = k)
           (filter (\<lambda>c. match_context (pattern_context (fst c)) cur) commands)
   \<and> (case List.find (\<lambda>c. match (fst c) (str_split (str_lower U cmd)) \<noteq> None)
              (available_commands commands (current_context g)) of
         None \<Rightarrow> dispatch_command U commands cmd g = (Inr PNone, g)
       | Some (p, f, kwargs) \<Rightarrow>
           \<exists>m. match p (str_split (str_lower U cmd)) = Some m
             \<and> dispatch_command U commands cmd g
                 = (case body f (kwargs ++ (map_option PStr \<circ> m)) g of
                      (Returns result, g') \<Rightarrow>
                        (Inr (if result \<noteq> PNone then result else PStr (str ''OK'')), g')
                    | (Raises (Exception msg), g') \<Rightarrow> (Inr (PStr (str ''Error: '' @ msg)), g')
                    | (Raises e, g') \<Rightarrow> (Inl e, g')))
   \<and> (current_context g = Some x \<and> x \<noteq> []
       \<and> List.find (\<lambda>c. pattern_context (fst c) = Some x
                   \<and> match (fst c) (str_split (str_lower U cmd)) \<noteq> None) commands
           = Some (p', f', kwargs')
       \<longrightarrow> (\<exists>m. match p' (str_split (str_lower U cmd)) = Some m
              \<and> dispatch_command U commands cmd g
                  = (case body f' (kwargs' ++ (map_option PStr \<circ> m)) g of
                       (Returns result, g') \<Rightarrow>
                         (Inr (if result \<noteq> PNone then result else PStr (str ''OK'')), g')
                     | (Raises (Exception msg), g') \<Rightarrow>
                         (Inr (PStr (str ''Error: '' @ msg)), g')
                     | (Raises e, g') \<Rightarrow> (Inl e, g'))))"
proof -
  let ?key = "\<lambda>c::('a, 'b) command. - int (ctx_order (fst c))"
  let ?ws = "str_split (str_lower U cmd)"
  have a: "set (available_commands commands cur)
     = {c \<in> set commands. match_context (pattern_context (fst c)) cur}"
    by (auto simp: available_commands_def is_active_def)
  have "sorted (map ?key (available_commands commands cur))"
    unfolding available_commands_def by (rule sorted_sort_key)
  then have b: "sorted_wrt (\<lambda>c d. ctx_order (fst d) \<le> ctx_order (fst c))
                  (available_commands commands cur)"
    by (simp add: sorted_map)
  have "filter (\<lambda>c. ?key c = - int k) (available_commands commands cur)
       = filter (\<lambda>c. ?key c = - int k)
           (filter (\<lambda>c. is_active (fst c) cur) commands)"
    unfolding available_commands_def by (rule sort_key_stable)
  then have c: "filter (\<lambda>c. ctx_order (fst c) = k) (available_commands commands cur)
       = filter (\<lambda>c. ctx_order (fst c) = k)
           (filter (\<lambda>c. match_context (pattern_context (fst c)) cur) commands)"
    by (simp add: is_active_def)
  have d: "case List.find (\<lambda>c. match (fst c) ?ws \<noteq> None)
              (available_commands commands (current_context g)) of
         None \<Rightarrow> dispatch_command U commands cmd g = (Inr PNone, g)
       | Some (p, f, kwargs) \<Rightarrow>
           \<exists>m. match p ?ws = Some m
             \<and> dispatch_command U commands cmd g
                 = (case body f (kwargs ++ (map_option PStr \<circ> m)) g of
                      (Returns result, g') \<Rightarrow>
                        (Inr (if result \<noteq> PNone then result else PStr (str ''OK'')), g')
                    | (Raises (Exception msg), g') \<Rightarrow> (Inr (PStr (str ''Error: '' @ msg)), g')
                    | (Raises e, g') \<Rightarrow> (Inl e, g'))"
    using dispatch_command_find [where U = U and cmd = cmd and commands = commands and g = g]
    unfolding invoke_def .
  have e: "\<exists>m. match p' ?ws = Some m
              \<and> dispatch_command U commands cmd g
                  = (case body f' (kwargs' ++ (map_option PStr \<circ> m)) g of
                       (Returns result, g') \<Rightarrow>
                         (Inr (if result \<noteq> PNone then result else PStr (str ''OK'')), g')
                     | (Raises (Exception msg), g') \<Rightarrow>
                         (Inr (PStr (str ''Error: '' @ msg)), g')
                     | (Raises e, g') \<Rightarrow> (Inl e, g'))"
    if h: "current_context g = Some x \<and> x \<noteq> []
       \<and> List.find (\<lambda>c. pattern_context (fst c) = Some x \<and> match (fst c) ?ws \<noteq> None) commands
           = Some (p', f', kwargs')"
  proof -
    from h have "\<exists>m. match p' ?ws = Some m
           \<and> dispatch_command U commands cmd g
               = invoke f' (kwargs' ++ (map_option PStr \<circ> m)) g"
      by (intro dispatch_command_scoped [of g x]) simp_all
    then show ?thesis unfolding invoke_def .
  qed
  from a b c d e show ?thesis by (intro conjI impI)
qed

theorem dispatch_specificity_witness:
  "current_context (in_context (Some (str ''x''))) = Some (str ''x'') \<and> str ''x'' \<noteq> []
   \<and> List.find (\<lambda>c. pattern_context (fst c) = Some (str ''x'')
                  \<and> match (fst c) (str_split (str_lower plain (str ''look''))) \<noteq> None)
        [(look_pattern None, say_handler (str ''unscoped''), Map.empty),
         (look_pattern (Some (str ''x'')), say_handler (str ''scoped''), Map.empty)]
       = Some (look_pattern (Some (str ''x'')), say_handler (str ''scoped''), Map.empty)
   \<and> Pattern_init plain (str ''look'') None = Inr (look_pattern None)
   \<and> Pattern_init plain (str ''look'') (Some (str ''x'')) = Inr (look_pattern (Some (str ''x'')))
   \<and> match (look_pattern None) (str_split (str_lower plain (str ''look''))) = Some Map.empty
   \<and> match (look_pattern (Some (str ''x''))) (str_split (str_lower plain (str ''look'')))
       = Some Map.empty
   \<and> body (say_handler (str ''scoped'')) Map.empty (in_context (Some (str ''x'')))
       = (Returns (PStr (str ''scoped'')), in_context (Some (str ''x'')))
   \<and> dispatch_command plain
        [(look_pattern None, say_handler (str ''unscoped''), Map.empty),
         (look_pattern (Some (str ''x'')), say_handler (str ''scoped''), Map.empty)]
        (str ''look'') (in_context (Some (str ''x'')))
       = (Inr (PStr (str ''scoped'')), in_context (Some (str ''x'')))"
proof -
  let ?cs = "[(look_pattern None, say_handler (str ''unscoped''), Map.empty),
              (look_pattern (Some (str ''x'')), say_handler (str ''scoped''), Map.empty)]"
  let ?ws = "str_split (str_lower plain (str ''look''))"
  have ws: "?ws = [str ''look'']" by (simp add: str_eval)
  have m1: "match (look_pattern None) ?ws = Some Map.empty"
    using ws by (simp add: match_def look_pattern_def)
  have m2: "match (look_pattern (Some (str ''x''))) ?ws = Some Map.empty"
    using ws by (simp add: match_def look_pattern_def)
  have c: "current_context (in_context (Some (str ''x''))) = Some (str ''x'')"
    by (simp add: in_context_def)
  have n: "str ''x'' \<noteq> []" by simp
  have p1: "pattern_context (look_pattern None) \<noteq> Some (str ''x'')"
    by (simp add: look_pattern_def)
  have p2: "pattern_context (look_pattern (Some (str ''x''))) = Some (str ''x'')"
    by (simp add: look_pattern_def)
  have f: "List.find (\<lambda>c. pattern_context (fst c) = Some (str ''x'')
                  \<and> match (fst c) ?ws \<noteq> None) ?cs
       = Some (look_pattern (Some (str ''x'')), say_handler (str ''scoped''), Map.empty)"
    by (simp only: find.simps fst_conv p1 p2 m2 simp_thms if_True if_False option.distinct)
  have i1: "Pattern_init plain (str ''look'') None = Inr (look_pattern None)"
    by (simp add: init_eval look_pattern_def)
  have i2: "Pattern_init plain (str ''look'') (Some (str ''x'')) = Inr (look_pattern (Some (str ''x'')))"
    by (simp add: init_eval look_pattern_def CONTEXT_SEP_def startswith_def endswith_def)
  have b: "body (say_handler (str ''scoped'')) Map.empty (in_context (Some (str ''x'')))
       = (Returns (PStr (str ''scoped'')), in_context (Some (str ''x'')))"
    by (simp add: say_handler_def)
  from c n f have "\<exists>m. match (look_pattern (Some (str ''x''))) ?ws = Some m
         \<and> dispatch_command plain ?cs (str ''look'') (in_context (Some (str ''x'')))
             = (case body (say_handler (str ''scoped'')) (Map.empty ++ (map_option PStr \<circ> m))
                       (in_context (Some (str ''x''))) of
                  (Returns result, g') \<Rightarrow>
                    (Inr (if result \<noteq> PNone then result else PStr (str ''OK'')), g')
                | (Raises (Exception msg), g') \<Rightarrow> (Inr (PStr (str ''Error: '' @ msg)), g')
                | (Raises e, g') \<Rightarrow> (Inl e, g'))"
    by (intro dispatch_specificity [where U = plain and commands = ?cs and cmd = "str ''look''"
        and g = "in_context (Some (str ''x''))" and x = "str ''x''"
        and p' = "look_pattern (Some (str ''x''))"
        and f' = "say_handler (str ''scoped'')" and kwargs' = Map.empty,
        THEN conjunct2, THEN conjunct2, THEN conjunct2, THEN conjunct2, rule_format]) 
       (intro conjI)
  then have d: "dispatch_command plain ?cs (str ''look'') (in_context (Some (str ''x'')))
       = (Inr (PStr (str ''scoped'')), in_context (Some (str ''x'')))"
    using m2 by (auto simp: say_handler_def)
  from c n f i1 i2 m1 m2 b d show ?thesis by (intro conjI)
qed

text \<open>
  Claim C4, as stated, fails for the built-in command \<open>quit\<close>: its handler \<open>sys.exit\<close>
  raises \<open>SystemExit\<close>, which \<open>except Exception\<close> does not catch, so it leaves
  \<open>dispatch_command\<close> and no error result is returned.
\<close>

theorem dispatch_quit_propagates:
  "Pattern_init plain (str ''quit'') None = Inr quit_pattern
   \<and> match quit_pattern (str_split (str_lower plain (str ''quit''))) = Some Map.empty
   \<and> body (sys_exit :: (unit, unit) func) Map.empty (in_context (Some (str ''exploring'')))
       = (Raises SystemExit, in_context (Some (str ''exploring'')))
   \<and> dispatch_command plain builtin_commands (str ''quit'') (in_context (Some (str ''exploring'')))
       = (Inl SystemExit, in_context (Some (str ''exploring'')))"
proof -
  let ?ws = "str_split (str_lower plain (str ''quit''))"
  have i: "Pattern_init plain (str ''quit'') None = Inr quit_pattern"
    by (simp add: init_eval quit_pattern_def)
  have ws: "?ws = [str ''quit'']" by (simp add: str_eval)
  have m: "match quit_pattern ?ws = Some Map.empty"
    using ws by (simp add: match_def quit_pattern_def)
  have a: "is_active quit_pattern (Some (str ''exploring''))"
    by (simp add: is_active_def match_context_def quit_pattern_def)
  have b: "body (sys_exit :: (unit, unit) func) Map.empty (in_context (Some (str ''exploring'')))
       = (Raises SystemExit, in_context (Some (str ''exploring'')))"
    by (simp add: sys_exit_def)
  have "dispatch_command plain builtin_commands (str ''quit'')
          (in_context (Some (str ''exploring'')))
        = try_commands ?ws builtin_commands (in_context (Some (str ''exploring'')))"
    using a
    by (simp add: dispatch_command_def in_context_def available_commands_def
        builtin_commands_def Let_def)
  also have "\<dots> = invoke sys_exit Map.empty (in_context (Some (str ''exploring'')))"
    using m by (simp add: builtin_commands_def)
  also have "\<dots> = (Inl SystemExit, in_context (Some (str ''exploring'')))"
    by (simp add: invoke_def sys_exit_def)
  finally have d: "dispatch_command plain builtin_commands
          (str ''quit'') (in_context (Some (str ''exploring'')))
       = (Inl SystemExit, in_context (Some (str ''exploring'')))" .
  from i m b d show ?thesis by (intro conjI)
qed

text \<open>
  Claim C4, amended. When the handler that dispatch selects raises an instance of
  \<open>Exception\<close>, \<open>dispatch_command\<close> returns the string \<open>Error:\<close> followed by the
  message; an exception that is not an instance of \<open>Exception\<close> leaves
  \<open>dispatch_command\<close>. In both cases dispatch changes nothing itself: the globals are
  those the handler left, and every later dispatch runs from them.
\<close>

theorem dispatch_catches_Exception:
  "List.find (\<lambda>c. match (fst c) (str_split (str_lower U cmd)) \<noteq> None)
       (available_commands commands (current_context g)) = Some (p, f, kwargs)
   \<and> match p (str_split (str_lower U cmd)) = Some m
   \<and> body f (kwargs ++ (map_option PStr \<circ> m)) g = (Raises e, g')
   \<longrightarrow> dispatch_command U commands cmd g
         = (case e of Exception msg \<Rightarrow> Inr (PStr (str ''Error: '' @ msg)) | _ \<Rightarrow> Inl e, g')
       \<and> (\<forall>cmd'. dispatch_command U commands cmd' (snd (dispatch_command U commands cmd g))
                   = dispatch_command U commands cmd' g')"
proof (intro impI)
  assume h: "List.find (\<lambda>c. match (fst c) (str_split (str_lower U cmd)) \<noteq> None)
       (available_commands commands (current_context g)) = Some (p, f, kwargs)
   \<and> match p (str_split (str_lower U cmd)) = Some m
   \<and> body f (kwargs ++ (map_option PStr \<circ> m)) g = (Raises e, g')"
  then have "\<exists>m. match p (str_split (str_lower U cmd)) = Some m
      \<and> dispatch_command U commands cmd g = invoke f (kwargs ++ (map_option PStr \<circ> m)) g"
    by (intro dispatch_command_first) simp
  with h have "dispatch_command U commands cmd g
      = invoke f (kwargs ++ (map_option PStr \<circ> m)) g"
    by auto
  with h have d: "dispatch_command U commands cmd g
         = (case e of Exception msg \<Rightarrow> Inr (PStr (str ''Error: '' @ msg)) | _ \<Rightarrow> Inl e, g')"
    by (cases e) (simp_all add: invoke_def)
  then show "dispatch_command U commands cmd g
         = (case e of Exception msg \<Rightarrow> Inr (PStr (str ''Error: '' @ msg)) | _ \<Rightarrow> Inl e, g')
       \<and> (\<forall>cmd'. dispatch_command U commands cmd' (snd (dispatch_command U commands cmd g))
                   = dispatch_command U commands cmd' g')"
    by simp
qed

theorem dispatch_catches_Exception_witness:
  "List.find (\<lambda>c. match (fst c) (str_split (str_lower plain (str ''Look''))) \<noteq> None)
       (available_commands [(look_pattern None, faulty_handler (str ''boom''), Map.empty)]
          (current_context (in_context None)))
     = Some (look_pattern None, faulty_handler (str ''boom''), Map.empty)
   \<and> match (look_pattern None) (str_split (str_lower plain (str ''Look''))) = Some Map.empty
   \<and> body (faulty_handler (str ''boom'')) (Map.empty ++ (map_option PStr \<circ> Map.empty))
        (in_context None)
       = (Raises (Exception (str ''boom'')), in_context None)
   \<and> dispatch_command plain [(look_pattern None, faulty_handler (str ''boom''), Map.empty)]
        (str ''Look'') (in_context None)
       = (Inr (PStr (str ''Error: boom'')), in_context None)"
proof -
  let ?cs = "[(look_pattern None, faulty_handler (str ''boom''), Map.empty)]"
  let ?ws = "str_split (str_lower plain (str ''Look''))"
  have ws: "?ws = [str ''look'']" by (simp add: str_eval)
  have m: "match (look_pattern None) ?ws = Some Map.empty"
    using ws by (simp add: match_def look_pattern_def)
  have a: "is_active (look_pattern None) None"
    by (simp add: is_active_def match_context_def look_pattern_def)
  have av: "available_commands ?cs (current_context (in_context None)) = ?cs"
    using a by (simp add: available_commands_def in_context_def)
  have f: "List.find (\<lambda>c. match (fst c) ?ws \<noteq> None)
       (available_commands ?cs (current_context (in_context None)))
     = Some (look_pattern None, faulty_handler (str ''boom''), Map.empty)"
    by (simp only: av find.simps fst_conv m simp_thms if_True option.distinct)
  have b: "body (faulty_handler (str ''boom'')) (Map.empty ++ (map_option PStr \<circ> Map.empty))
             (in_context None)
       = (Raises (Exception (str ''boom'')), in_context None)"
    by (simp add: faulty_handler_def)
  from f m b have "dispatch_command plain ?cs (str ''Look'') (in_context None)
         = (case Exception (str ''boom'') of
              Exception msg \<Rightarrow> Inr (PStr (str ''Error: '' @ msg)) | _ \<Rightarrow> Inl (Exception (str ''boom'')),
            in_context None)"
    by (intro dispatch_catches_Exception [where U = plain and commands = ?cs
        and cmd = "str ''Look''" and g = "in_context None" and p = "look_pattern None"
        and f = "faulty_handler (str ''boom'')" and kwargs = Map.empty and m = Map.empty
        and e = "Exception (str ''boom'')" and g' = "in_context None",
        rule_format, THEN conjunct1]) (intro conjI)
  then have d: "dispatch_command plain ?cs (str ''Look'') (in_context None)
       = (Inr (PStr (str ''Error: boom'')), in_context None)"
    by simp
  from f m b d show ?thesis by (intro conjI)
qed

end
